theory Spec2Isabelle
  imports Main
begin

section \<open>JavaScript values and strings\<close>

text \<open>
  A JavaScript string is a sequence of UTF-16 code units. No arithmetic is done on a
  code unit except the decoding of a surrogate pair, so a code unit is a natural
  number; \<open>js\<close> gives the code units of an ASCII literal.
\<close>

type_synonym jsstring = "nat list"

definition js :: "string \<Rightarrow> jsstring" where
  "js s = map of_char s"

text \<open>
  The values of the language. The program never computes with a number, a bigint or an
  object: it takes \<^verbatim>\<open>typeof\<close> of its first argument, and tests and converts to a string
  the \<^verbatim>\<open>httpOnly\<close> it is given. So a number and a bigint carry what these operations
  observe of them, whether \<^verbatim>\<open>ToBoolean\<close> holds (the number is not zero or NaN) and the
  decimal string \<^verbatim>\<open>ToString\<close> returns; an object and a function carry the string their
  conversion returns, \<open>None\<close> when the conversion throws.
\<close>

datatype jsvalue =
    JSUndefined
  | JSNull
  | JSBoolean bool
  | JSNumber bool jsstring
  | JSBigInt bool jsstring
  | JSString jsstring
  | JSSymbol
  | JSFunction "jsstring option"
  | JSObject "jsstring option"

text \<open>The \<^verbatim>\<open>typeof\<close> operator.\<close>

fun typeof :: "jsvalue \<Rightarrow> jsstring" where
  "typeof JSUndefined = js ''undefined''"
| "typeof JSNull = js ''object''"
| "typeof (JSBoolean b) = js ''boolean''"
| "typeof (JSNumber t d) = js ''number''"
| "typeof (JSBigInt t d) = js ''bigint''"
| "typeof (JSString s) = js ''string''"
| "typeof JSSymbol = js ''symbol''"
| "typeof (JSFunction r) = js ''function''"
| "typeof (JSObject r) = js ''object''"

text \<open>
  What a call can throw: the \<open>TypeError\<close> the source constructs, with its message; a
  TypeError the engine throws, whose message the language leaves to the implementation;
  and whatever the conversion of an object throws.
\<close>

datatype error = TypeError jsstring | EngineTypeError | Thrown

text \<open>\<^verbatim>\<open>ToBoolean\<close>, the test of a condition.\<close>

fun ToBoolean :: "jsvalue \<Rightarrow> bool" where
  "ToBoolean JSUndefined = False"
| "ToBoolean JSNull = False"
| "ToBoolean (JSBoolean b) = b"
| "ToBoolean (JSNumber t d) = t"
| "ToBoolean (JSBigInt t d) = t"
| "ToBoolean (JSString s) = (s \<noteq> [])"
| "ToBoolean JSSymbol = True"
| "ToBoolean (JSFunction r) = True"
| "ToBoolean (JSObject r) = True"

text \<open>
  \<^verbatim>\<open>ToString\<close>, as a template literal applies it: a Symbol cannot be converted, and
  the conversion of an object runs its own code.
\<close>

fun ToString :: "jsvalue \<Rightarrow> error + jsstring" where
  "ToString JSUndefined = Inr (js ''undefined'')"
| "ToString JSNull = Inr (js ''null'')"
| "ToString (JSBoolean b) = Inr (if b then js ''true'' else js ''false'')"
| "ToString (JSNumber t d) = Inr d"
| "ToString (JSBigInt t d) = Inr d"
| "ToString (JSString s) = Inr s"
| "ToString JSSymbol = Inl EngineTypeError"
| "ToString (JSFunction r) = (case r of None \<Rightarrow> Inl Thrown | Some s \<Rightarrow> Inr s)"
| "ToString (JSObject r) = (case r of None \<Rightarrow> Inl Thrown | Some s \<Rightarrow> Inr s)"

text \<open>
  \<^verbatim>\<open>String.prototype.codePointAt\<close>: \<open>None\<close> is \<^verbatim>\<open>undefined\<close> (position out of
  range); a high surrogate followed by a low surrogate is read as one code point.
\<close>

definition codePointAt :: "jsstring \<Rightarrow> nat \<Rightarrow> nat option" where
  "codePointAt s pos =
     (if length s \<le> pos then None
      else let first = s ! pos in
        if first < 0xD800 \<or> 0xDBFF < first \<or> pos + 1 = length s then Some first
        else let second = s ! (pos + 1) in
          if second < 0xDC00 \<or> 0xDFFF < second then Some first
          else Some ((first - 0xD800) * 0x400 + (second - 0xDC00) + 0x10000))"

text \<open>
  The relational operators on a number that may be \<^verbatim>\<open>undefined\<close>: a comparison with
  \<^verbatim>\<open>undefined\<close> is false.
\<close>

fun js_ge :: "nat option \<Rightarrow> nat \<Rightarrow> bool" where
  "js_ge None n = False"
| "js_ge (Some m) n = (n \<le> m)"

fun js_le :: "nat option \<Rightarrow> nat \<Rightarrow> bool" where
  "js_le None n = False"
| "js_le (Some m) n = (m \<le> n)"

text \<open>\<^verbatim>\<open>String.prototype.slice(start, end)\<close> for bounds that are not negative.\<close>

definition slice :: "jsstring \<Rightarrow> nat \<Rightarrow> nat \<Rightarrow> jsstring" where
  "slice s start fin = take (fin - start) (drop start s)"

subsection \<open>Case conversion\<close>

text \<open>
  The case mappings of the ASCII range are written out. The Unicode tables for the
  code points from 128 on are not part of the repository and are parameters: the
  lowercase mapping of a code point in its context (the code points before and after it,
  which the Final_Sigma rule reads), and the uppercase mapping of a single code point.
\<close>

record unicode =
  lowercaseMapping :: "nat list \<Rightarrow> nat \<Rightarrow> nat list \<Rightarrow> nat list"
  uppercaseMapping :: "nat \<Rightarrow> nat list"

fun StringToCodePoints :: "jsstring \<Rightarrow> nat list" where
  "StringToCodePoints [] = []"
| "StringToCodePoints [u] = [u]"
| "StringToCodePoints (first # second # rest) =
     (if 0xD800 \<le> first \<and> first \<le> 0xDBFF \<and> 0xDC00 \<le> second \<and> second \<le> 0xDFFF
      then ((first - 0xD800) * 0x400 + (second - 0xDC00) + 0x10000) # StringToCodePoints rest
      else first # StringToCodePoints (second # rest))"

definition UTF16EncodeCodePoint :: "nat \<Rightarrow> jsstring" where
  "UTF16EncodeCodePoint cp =
     (if cp \<le> 0xFFFF then [cp]
      else [(cp - 0x10000) div 0x400 + 0xD800, (cp - 0x10000) mod 0x400 + 0xDC00])"

definition CodePointsToString :: "nat list \<Rightarrow> jsstring" where
  "CodePointsToString cps = concat (map UTF16EncodeCodePoint cps)"

definition lowerCodePoint :: "unicode \<Rightarrow> nat list \<Rightarrow> nat \<Rightarrow> nat list \<Rightarrow> nat list" where
  "lowerCodePoint U pre c post =
     (if 65 \<le> c \<and> c \<le> 90 then [c + 32]
      else if c < 128 then [c]
      else lowercaseMapping U pre c post)"

fun toLowercase :: "unicode \<Rightarrow> nat list \<Rightarrow> nat list \<Rightarrow> nat list" where
  "toLowercase U pre [] = []"
| "toLowercase U pre (c # post) =
     lowerCodePoint U pre c post @ toLowercase U (pre @ [c]) post"

text \<open>\<^verbatim>\<open>String.prototype.toLowerCase\<close>.\<close>

definition toLowerCase :: "unicode \<Rightarrow> jsstring \<Rightarrow> jsstring" where
  "toLowerCase U s = CodePointsToString (toLowercase U [] (StringToCodePoints s))"

definition upperCodePoint :: "unicode \<Rightarrow> nat \<Rightarrow> nat list" where
  "upperCodePoint U c =
     (if 97 \<le> c \<and> c \<le> 122 then [c - 32]
      else if c < 128 then [c]
      else uppercaseMapping U c)"

subsection \<open>Regular expressions\<close>

text \<open>
  The part of the RegExp pattern language the two patterns of the source use: the
  assertion \<^verbatim>\<open>^\<close>, a character or a character class (the list of its members), the
  sequence, the greedy \<^verbatim>\<open>?\<close> and the lazy \<^verbatim>\<open>*?\<close>.
\<close>

datatype regex =
    Bol
  | Atom "nat list"
  | Seq regex regex
  | Optional regex
  | LazyStar regex

text \<open>
  \<^verbatim>\<open>Canonicalize\<close> of a pattern without the \<^verbatim>\<open>u\<close> flag: under \<^verbatim>\<open>i\<close> a code unit is
  compared through its uppercase mapping, unless that mapping is not a single code unit or
  takes a code unit from 128 on into ASCII.
\<close>

definition Canonicalize :: "unicode \<Rightarrow> bool \<Rightarrow> nat \<Rightarrow> nat" where
  "Canonicalize U ignoreCase ch =
     (if \<not> ignoreCase then ch
      else case CodePointsToString (upperCodePoint U ch) of
             [cu] \<Rightarrow> if 128 \<le> ch \<and> cu < 128 then ch else cu
           | _ \<Rightarrow> ch)"

definition charSetMatches :: "unicode \<Rightarrow> bool \<Rightarrow> nat list \<Rightarrow> nat \<Rightarrow> bool" where
  "charSetMatches U ignoreCase A ch =
     list_ex (\<lambda>a. Canonicalize U ignoreCase a = Canonicalize U ignoreCase ch) A"

text \<open>
  The matcher returns the remainders of the input after every way the pattern matches at
  the front of \<open>s\<close>, in the order backtracking tries them; \<open>inp\<close> is the whole input.
  An iteration of a quantifier that consumes nothing is rejected, as the empty check of
  \<^verbatim>\<open>RepeatMatcher\<close> does.
\<close>

function matcher :: "unicode \<Rightarrow> bool \<Rightarrow> jsstring \<Rightarrow> regex \<Rightarrow> jsstring \<Rightarrow> jsstring list" where
  "matcher U ic inp Bol s = (if length s = length inp then [s] else [])"
| "matcher U ic inp (Atom A) s =
     (case s of [] \<Rightarrow> [] | ch # rest \<Rightarrow> if charSetMatches U ic A ch then [rest] else [])"
| "matcher U ic inp (Seq r1 r2) s = concat (map (matcher U ic inp r2) (matcher U ic inp r1 s))"
| "matcher U ic inp (Optional r) s =
     filter (\<lambda>s'. length s' < length s) (matcher U ic inp r s) @ [s]"
| "matcher U ic inp (LazyStar r) s =
     s # concat (map (matcher U ic inp (LazyStar r))
                  (filter (\<lambda>s'. length s' < length s) (matcher U ic inp r s)))"
  by pat_completeness auto
termination
  by (relation "measures [\<lambda>(U, ic, inp, r, s). size r, \<lambda>(U, ic, inp, r, s). length s]")
     auto

text \<open>
  \<^verbatim>\<open>RegExp.prototype.test\<close> of a pattern without the \<^verbatim>\<open>g\<close> and \<^verbatim>\<open>y\<close> flags: the
  match is tried at every start index from 0 to the length of the input.
\<close>

definition regex_test :: "unicode \<Rightarrow> bool \<Rightarrow> regex \<Rightarrow> jsstring \<Rightarrow> bool" where
  "regex_test U ic r inp =
     list_ex (\<lambda>i. matcher U ic inp r (drop i inp) \<noteq> []) [0..<Suc (length inp)]"

section \<open>The source: index.js\<close>

text \<open>\<^verbatim>\<open>/^[a-zA-Z][a-zA-Z\d+\-.]*?:/\<close>\<close>

definition ABSOLUTE_URL_REGEX :: regex where
  "ABSOLUTE_URL_REGEX =
     Seq Bol
       (Seq (Atom ([97..<123] @ [65..<91]))
         (Seq (LazyStar (Atom ([97..<123] @ [65..<91] @ [48..<58] @ [43, 45, 46])))
           (Atom [58])))"

text \<open>\<^verbatim>\<open>/^https?:/i\<close>; the flag is the \<open>True\<close> passed to \<open>regex_test\<close>.\<close>

definition HTTP_PROTOCOLS_REGEX :: regex where
  "HTTP_PROTOCOLS_REGEX =
     Seq Bol
       (Seq (Atom [104])
         (Seq (Atom [116])
           (Seq (Atom [116])
             (Seq (Atom [112])
               (Seq (Optional (Atom [115]))
                 (Atom [58]))))))"

definition CACHE_MAX_SIZE :: nat where
  "CACHE_MAX_SIZE = 1000"

subsection \<open>The Map\<close>

text \<open>
  A JavaScript \<^verbatim>\<open>Map\<close> keeps its entries in insertion order: an association list,
  the oldest entry first. \<^verbatim>\<open>set\<close> on a key that is present replaces the value in
  place; on a new key it appends.
\<close>

type_synonym cache = "(jsstring \<times> bool) list"

definition map_has :: "cache \<Rightarrow> jsstring \<Rightarrow> bool" where
  "map_has m k = (map_of m k \<noteq> None)"

definition map_get :: "cache \<Rightarrow> jsstring \<Rightarrow> bool option" where
  "map_get m k = map_of m k"

fun map_set :: "cache \<Rightarrow> jsstring \<Rightarrow> bool \<Rightarrow> cache" where
  "map_set [] k v = [(k, v)]"
| "map_set (p # ps) k v = (if fst p = k then (k, v) # ps else p # map_set ps k v)"

definition map_delete :: "cache \<Rightarrow> jsstring \<Rightarrow> cache" where
  "map_delete m k = filter (\<lambda>p. fst p \<noteq> k) m"

definition map_size :: "cache \<Rightarrow> nat" where
  "map_size m = length m"

text \<open>\<^verbatim>\<open>m.keys().next().value\<close>: the first key, \<^verbatim>\<open>undefined\<close> on an empty Map.\<close>

definition map_firstKey :: "cache \<Rightarrow> jsstring option" where
  "map_firstKey m = (case m of [] \<Rightarrow> None | p # ps \<Rightarrow> Some (fst p))"

subsection \<open>The functions\<close>

definition hasCommonHttpProtocol :: "unicode \<Rightarrow> jsstring \<Rightarrow> bool" where
  "hasCommonHttpProtocol U url =
     (let char1 = codePointAt url 0;
          char2 = codePointAt url 1;
          char3 = codePointAt url 2;
          char4 = codePointAt url 3;
          char5 = codePointAt url 4
      in
      if char1 = Some 104 \<and> char2 = Some 116 \<and> char3 = Some 116 \<and> char4 = Some 112
         \<and> char5 = Some 58 then True
      else if char1 = Some 72 \<and> char2 = Some 84 \<and> char3 = Some 84 \<and> char4 = Some 80
         \<and> char5 = Some 58 then True
      else
        let char6 = codePointAt url 5 in
        if char1 = Some 104 \<and> char2 = Some 116 \<and> char3 = Some 116 \<and> char4 = Some 112
           \<and> char5 = Some 115 \<and> char6 = Some 58 then True
        else if char1 = Some 72 \<and> char2 = Some 84 \<and> char3 = Some 84 \<and> char4 = Some 80
           \<and> char5 = Some 83 \<and> char6 = Some 58 then True
        else
          let firstSix = toLowerCase U (slice url 0 6) in
          firstSix = js ''http:'' \<or> firstSix = js ''https:'')"

definition isWindowsPath :: "jsstring \<Rightarrow> bool" where
  "isWindowsPath url =
     (if length url < 3 then False
      else
        let firstChar = codePointAt url 0;
            secondChar = codePointAt url 1;
            thirdChar = codePointAt url 2
        in ((js_ge firstChar 65 \<and> js_le firstChar 90) \<or> (js_ge firstChar 97 \<and> js_le firstChar 122))
           \<and> secondChar = Some 58
           \<and> thirdChar = Some 92)"

text \<open>
  \<^verbatim>\<open>validationCache.delete(undefined)\<close> on the empty Map deletes nothing: the keys are
  strings.
\<close>

definition evictOldestCacheEntry :: "cache \<Rightarrow> cache" where
  "evictOldestCacheEntry validationCache =
     (case map_firstKey validationCache of
        None \<Rightarrow> validationCache
      | Some firstKey \<Rightarrow> map_delete validationCache firstKey)"

text \<open>
  The second argument, which the source does not check: it is omitted (or
  \<^verbatim>\<open>undefined\<close>), or \<^verbatim>\<open>null\<close>, or any other value, given by what its property
  \<^verbatim>\<open>httpOnly\<close> reads as (\<open>JSUndefined\<close> when it has none).
\<close>

datatype options = OptionsUndefined | OptionsNull | OptionsObject jsvalue

text \<open>
  The parameter default \<^verbatim>\<open>options = {}\<close> and \<^verbatim>\<open>const {httpOnly = true} = options\<close>:
  both defaults apply to \<^verbatim>\<open>undefined\<close> only, destructuring \<^verbatim>\<open>null\<close> throws a
  TypeError, and any other \<^verbatim>\<open>httpOnly\<close> is kept as it is.
\<close>

definition resolveHttpOnly :: "options \<Rightarrow> error + jsvalue" where
  "resolveHttpOnly opts =
     (case opts of
        OptionsUndefined \<Rightarrow> Inr (JSBoolean True)
      | OptionsNull \<Rightarrow> Inl EngineTypeError
      | OptionsObject v \<Rightarrow> Inr (if v = JSUndefined then JSBoolean True else v))"

text \<open>
  The template literal \<^verbatim>\<open>`${url}|${httpOnly}`\<close>, which converts \<^verbatim>\<open>httpOnly\<close> to a
  string whatever it is.
\<close>

definition cacheKey :: "jsstring \<Rightarrow> jsvalue \<Rightarrow> error + jsstring" where
  "cacheKey url httpOnly =
     (case ToString httpOnly of
        Inl e \<Rightarrow> Inl e
      | Inr t \<Rightarrow> Inr (url @ js ''|'' @ t))"

text \<open>
  The three statements that end every branch of a miss: evict when the Map is full,
  store the result, return it.
\<close>

definition cacheAndReturn :: "cache \<Rightarrow> jsstring \<Rightarrow> bool \<Rightarrow> (error + bool) \<times> cache" where
  "cacheAndReturn validationCache key result =
     (let c1 = (if CACHE_MAX_SIZE \<le> map_size validationCache
                then evictOldestCacheEntry validationCache else validationCache)
      in (Inr result, map_set c1 key result))"

text \<open>
  \<open>isAbsoluteUrl\<close> takes the module's Map and returns it updated, beside the value
  returned (\<open>Inr\<close>) or the exception thrown (\<open>Inl\<close>). The check of the first argument
  comes first, then the destructuring of the options, then the key; \<^verbatim>\<open>httpOnly\<close> is
  tested through \<open>ToBoolean\<close>, as a condition tests it. \<^verbatim>\<open>has\<close> and \<^verbatim>\<open>get\<close> of the
  hit are the one lookup \<open>map_get\<close>: the stored values are booleans, so \<^verbatim>\<open>get\<close> is
  defined exactly when \<^verbatim>\<open>has\<close> holds.
\<close>

definition isAbsoluteUrl ::
    "unicode \<Rightarrow> jsvalue \<Rightarrow> options \<Rightarrow> cache \<Rightarrow> (error + bool) \<times> cache" where
  "isAbsoluteUrl U url opts validationCache =
     (case url of
        JSString s \<Rightarrow>
          (case resolveHttpOnly opts of
             Inl e \<Rightarrow> (Inl e, validationCache)
           | Inr httpOnly \<Rightarrow>
               (case cacheKey s httpOnly of
                  Inl e \<Rightarrow> (Inl e, validationCache)
                | Inr key \<Rightarrow>
                    (case map_get validationCache key of
                       Some stored \<Rightarrow> (Inr stored, validationCache)
                     | None \<Rightarrow>
                         if isWindowsPath s then cacheAndReturn validationCache key False
                         else if ToBoolean httpOnly \<and> 5 \<le> length s
                                 \<and> hasCommonHttpProtocol U s then
                           cacheAndReturn validationCache key True
                         else
                           cacheAndReturn validationCache key
                             (if regex_test U False ABSOLUTE_URL_REGEX s
                              then (if ToBoolean httpOnly
                                    then regex_test U True HTTP_PROTOCOLS_REGEX s else True)
                              else False))))
      | _ \<Rightarrow>
          (Inl (TypeError (js ''Expected a `string`, got `'' @ typeof url @ js ''`'')),
           validationCache))"

text \<open>
  The decision of a miss, without the Map: what the three branches of \<open>isAbsoluteUrl\<close>
  pass to \<open>cacheAndReturn\<close>, \<open>h\<close> being \<open>ToBoolean\<close> of \<^verbatim>\<open>httpOnly\<close>.
\<close>

definition classify :: "unicode \<Rightarrow> jsstring \<Rightarrow> bool \<Rightarrow> bool" where
  "classify U s h =
     (if isWindowsPath s then False
      else if h \<and> 5 \<le> length s \<and> hasCommonHttpProtocol U s then True
      else if regex_test U False ABSOLUTE_URL_REGEX s
        then (if h then regex_test U True HTTP_PROTOCOLS_REGEX s else True)
        else False)"

text \<open>A sequence of calls, each on the Map the calls before it left.\<close>

fun run :: "unicode \<Rightarrow> cache \<Rightarrow> (jsvalue \<times> options) list \<Rightarrow> cache" where
  "run U c [] = c"
| "run U c (call # calls) = run U (snd (isAbsoluteUrl U (fst call) (snd call) c)) calls"

text \<open>The call \<^verbatim>\<open>isAbsoluteUrl(s, {httpOnly: h})\<close>.\<close>

definition request :: "jsstring \<times> bool \<Rightarrow> jsvalue \<times> options" where
  "request p = (JSString (fst p), OptionsObject (JSBoolean (snd p)))"

text \<open>
  The key of a string and a boolean, \<^verbatim>\<open>s|true\<close> or \<^verbatim>\<open>s|false\<close>, and the key under
  which that call is stored.
\<close>

definition booleanKey :: "jsstring \<Rightarrow> bool \<Rightarrow> jsstring" where
  "booleanKey s h = s @ js ''|'' @ (if h then js ''true'' else js ''false'')"

definition requestKey :: "jsstring \<times> bool \<Rightarrow> jsstring" where
  "requestKey p = booleanKey (fst p) (snd p)"

text \<open>
  The options of the specification's contract, \<^verbatim>\<open>options?: {httpOnly?: boolean}\<close>: the
  argument is omitted, or \<^verbatim>\<open>httpOnly\<close> is absent or a boolean. \<open>contractCalls\<close> are
  calls with such options, whatever their first argument.
\<close>

fun contractOptions :: "options \<Rightarrow> bool" where
  "contractOptions OptionsUndefined = True"
| "contractOptions OptionsNull = False"
| "contractOptions (OptionsObject v) =
     (case v of JSUndefined \<Rightarrow> True | JSBoolean b \<Rightarrow> True | _ \<Rightarrow> False)"

definition contractCalls :: "(jsvalue \<times> options) list \<Rightarrow> bool" where
  "contractCalls calls = list_all (\<lambda>call. contractOptions (snd call)) calls"

text \<open>
  Calls with 1001 distinct strings (\<^verbatim>\<open>a\<close> repeated \<open>n\<close> times, for \<open>n\<close> from 0 to
  1000), one more than the Map holds.
\<close>

definition manyRequests :: "(jsstring \<times> bool) list" where
  "manyRequests = map (\<lambda>n. (replicate n 97, True)) [0..<1001]"

section \<open>The specification\<close>

text \<open>
  The scheme grammar of the specification,
  \<^verbatim>\<open><letter> (letter | digit | '+' | '-' | '.')* ':'\<close> at the start of the string.
\<close>

definition isAsciiLetter :: "nat \<Rightarrow> bool" where
  "isAsciiLetter c = ((65 \<le> c \<and> c \<le> 90) \<or> (97 \<le> c \<and> c \<le> 122))"

definition isSchemeChar :: "nat \<Rightarrow> bool" where
  "isSchemeChar c =
     (isAsciiLetter c \<or> (48 \<le> c \<and> c \<le> 57) \<or> c = 43 \<or> c = 45 \<or> c = 46)"

definition matchesSchemeGrammar :: "jsstring \<Rightarrow> bool" where
  "matchesSchemeGrammar s =
     (\<exists>scheme rest. s = scheme @ 58 # rest \<and> scheme \<noteq> [] \<and> isAsciiLetter (hd scheme)
        \<and> list_all isSchemeChar (tl scheme))"

text \<open>The scheme token: the text before the first colon.\<close>

definition schemeToken :: "jsstring \<Rightarrow> jsstring" where
  "schemeToken s = takeWhile (\<lambda>c. c \<noteq> 58) s"

text \<open>Comparison that ignores the case of the ASCII letters.\<close>

definition asciiLower :: "nat \<Rightarrow> nat" where
  "asciiLower c = (if 65 \<le> c \<and> c \<le> 90 then c + 32 else c)"

definition equalsIgnoreCase :: "jsstring \<Rightarrow> jsstring \<Rightarrow> bool" where
  "equalsIgnoreCase a b = (map asciiLower a = map asciiLower b)"

fun startsWithIgnoreCase :: "jsstring \<Rightarrow> jsstring \<Rightarrow> bool" where
  "startsWithIgnoreCase [] s = True"
| "startsWithIgnoreCase (p # ps) [] = False"
| "startsWithIgnoreCase (p # ps) (c # cs) =
     (asciiLower c = asciiLower p \<and> startsWithIgnoreCase ps cs)"

text \<open>
  The platform-path pattern: the first three characters are an ASCII letter, a colon and
  a backslash.
\<close>

definition isPlatformPath :: "jsstring \<Rightarrow> bool" where
  "isPlatformPath s = (\<exists>l rest. s = l # 58 # 92 # rest \<and> isAsciiLetter l)"

text \<open>
  The reference route of the specification (steps 3, 5 and 6 of its evaluation order), in
  its words: a platform path is rejected; then a string without a scheme prefix is
  rejected; then, under the HttpOnly policy, the scheme token must be \<^verbatim>\<open>http\<close> or
  \<^verbatim>\<open>https\<close> in any casing.
\<close>

definition isAbsoluteUrl_reference :: "jsstring \<Rightarrow> bool \<Rightarrow> bool" where
  "isAbsoluteUrl_reference s h =
     (if isPlatformPath s then False
      else if \<not> matchesSchemeGrammar s then False
      else if h then equalsIgnoreCase (schemeToken s) (js ''http'')
                     \<or> equalsIgnoreCase (schemeToken s) (js ''https'')
      else True)"

text \<open>
  The same route on the source: the decision of a miss with the fast path (lines 100 to
  111 of index.js) left out.
\<close>

definition isAbsoluteUrl_noFastPath :: "unicode \<Rightarrow> jsstring \<Rightarrow> bool \<Rightarrow> bool" where
  "isAbsoluteUrl_noFastPath U s h =
     (if isWindowsPath s then False
      else if regex_test U False ABSOLUTE_URL_REGEX s
        then (if h then regex_test U True HTTP_PROTOCOLS_REGEX s else True)
        else False)"

text \<open>
  What the proofs about \<^verbatim>\<open>toLowerCase\<close> need of the Unicode table: the lowercase
  mapping of a code point from 128 on is not empty and does not begin with one of
  \<^verbatim>\<open>h\<close>, \<^verbatim>\<open>t\<close>, \<^verbatim>\<open>p\<close>, \<^verbatim>\<open>s\<close> and \<^verbatim>\<open>:\<close>. (In Unicode the only such
  mappings that begin with an ASCII character are those of U+212A, to \<^verbatim>\<open>k\<close>, and of
  U+0130, to \<^verbatim>\<open>i\<close> and U+0307.)
\<close>

definition lowercaseAvoidsHttp :: "unicode \<Rightarrow> bool" where
  "lowercaseAvoidsHttp U =
     (\<forall>pre c post. 128 \<le> c \<longrightarrow>
        lowercaseMapping U pre c post \<noteq> []
        \<and> hd (lowercaseMapping U pre c post) \<notin> {104, 116, 112, 115, 58})"

text \<open>
  A table with a few entries of the Unicode one, for concrete instances: U+212A and
  U+0130 as above, U+00C9 and U+00E9, U+00DF whose uppercase is two letters, U+017F whose
  uppercase is the ASCII \<^verbatim>\<open>S\<close>; every other code point is mapped to itself.
\<close>

definition sampleUnicode :: unicode where
  "sampleUnicode =
     \<lparr>lowercaseMapping = (\<lambda>pre c post.
          if c = 0x212A then [0x6B]
          else if c = 0x130 then [0x69, 0x307]
          else if c = 0xC9 then [0xE9]
          else [c]),
      uppercaseMapping = (\<lambda>c.
          if c = 0xE9 then [0xC9]
          else if c = 0xDF then [0x53, 0x53]
          else if c = 0x17F then [0x53]
          else [c])\<rparr>"

text \<open>
  A table as Unicode has none: one code point is mapped to \<^verbatim>\<open>http:\<close>, every other
  one to the empty string.
\<close>

definition adverseUnicode :: unicode where
  "adverseUnicode =
     \<lparr>lowercaseMapping = (\<lambda>pre c post. if c = 200 then [104, 116, 116, 112, 58] else []),
      uppercaseMapping = (\<lambda>c. [c])\<rparr>"

text \<open>
  Two invariants of the Map. Every call keeps the keys distinct and at most
  \<open>CACHE_MAX_SIZE\<close> entries. Calls with the options of the contract keep, besides, that
  every entry holds the decision for the string and the boolean its key encodes.
\<close>

definition cache_wf :: "cache \<Rightarrow> bool" where
  "cache_wf c = (distinct (map fst c) \<and> length c \<le> CACHE_MAX_SIZE)"

definition cache_inv :: "unicode \<Rightarrow> cache \<Rightarrow> bool" where
  "cache_inv U c =
     (cache_wf c
      \<and> (\<forall>p\<in>set c. \<exists>s h. fst p = booleanKey s h \<and> snd p = classify U s h))"

section \<open>Lemmas\<close>

subsection \<open>Strings and regular expressions\<close>

lemma charSetMatches_exact [simp]: "charSetMatches U False A ch = (ch \<in> set A)"
  by (auto simp: charSetMatches_def Canonicalize_def list_ex_iff)

lemma matcher_LazyStar_Atom_Cons:
  "matcher U False inp (LazyStar (Atom A)) (c # cs) =
     (c # cs) # (if c \<in> set A then matcher U False inp (LazyStar (Atom A)) cs else [])"
  by simp

lemma split_at_first:
  "(\<exists>pre b rest. c # cs = pre @ b # rest \<and> set pre \<subseteq> SA \<and> b \<in> SB) \<longleftrightarrow>
     c \<in> SB \<or> (c \<in> SA \<and> (\<exists>pre b rest. cs = pre @ b # rest \<and> set pre \<subseteq> SA \<and> b \<in> SB))"
  (is "?L \<longleftrightarrow> ?R")
proof
  assume ?L
  then obtain pre b rest where h: "c # cs = pre @ b # rest" "set pre \<subseteq> SA" "b \<in> SB"
    by blast
  show ?R
  proof (cases pre)
    case Nil
    with h show ?thesis by simp
  next
    case (Cons p ps)
    with h have "c = p" "cs = ps @ b # rest" "set ps \<subseteq> SA" "c \<in> SA" by auto
    with h(3) show ?thesis by blast
  qed
next
  assume ?R
  then consider "c \<in> SB"
    | pre b rest where "c \<in> SA" "cs = pre @ b # rest" "set pre \<subseteq> SA" "b \<in> SB"
    by blast
  then show ?L
  proof cases
    case 1
    then have "c # cs = [] @ c # cs \<and> set [] \<subseteq> SA \<and> c \<in> SB" by simp
    then show ?thesis by blast
  next
    case 2
    then have "c # cs = (c # pre) @ b # rest \<and> set (c # pre) \<subseteq> SA \<and> b \<in> SB" by simp
    then show ?thesis by blast
  qed
qed

lemma matcher_LazyStar_then_Atom:
  "matcher U False inp (Seq (LazyStar (Atom A)) (Atom B)) s \<noteq> [] \<longleftrightarrow>
     (\<exists>pre b rest. s = pre @ b # rest \<and> set pre \<subseteq> set A \<and> b \<in> set B)"
proof (induction s)
  case Nil
  then show ?case by simp
next
  case (Cons c cs)
  have "matcher U False inp (Seq (LazyStar (Atom A)) (Atom B)) (c # cs) \<noteq> [] \<longleftrightarrow>
          c \<in> set B \<or> (c \<in> set A \<and> matcher U False inp (Seq (LazyStar (Atom A)) (Atom B)) cs \<noteq> [])"
    by (auto simp del: matcher.simps(5) simp add: matcher_LazyStar_Atom_Cons)
  then show ?case
    unfolding Cons.IH split_at_first [of c cs "set A" "set B"] .
qed

lemma regex_test_Bol:
  "regex_test U ic (Seq Bol r) inp = (matcher U ic inp r inp \<noteq> [])"
proof -
  have "\<And>i. i \<le> length inp \<Longrightarrow> matcher U ic inp (Seq Bol r) (drop i inp) \<noteq> []
          \<longleftrightarrow> i = 0 \<and> matcher U ic inp r inp \<noteq> []"
    subgoal for i by (cases "i = 0") auto
    done
  then show ?thesis
    unfolding regex_test_def list_ex_iff by (auto simp: less_Suc_eq_le)
qed

lemma matcher_Atom_ne:
  "matcher U ic inp (Atom A) s \<noteq> [] \<longleftrightarrow> (\<exists>ch rest. s = ch # rest \<and> charSetMatches U ic A ch)"
  by (cases s) auto

lemma matcher_Seq_Atom:
  "matcher U ic inp (Seq (Atom A) r) s \<noteq> [] \<longleftrightarrow>
     (\<exists>ch rest. s = ch # rest \<and> charSetMatches U ic A ch \<and> matcher U ic inp r rest \<noteq> [])"
  by (cases s) auto

lemma matcher_Seq_ne:
  "matcher U ic inp (Seq r1 r2) s \<noteq> [] \<longleftrightarrow>
     (\<exists>x \<in> set (matcher U ic inp r1 s). matcher U ic inp r2 x \<noteq> [])"
  by auto

lemma letter_class: "c \<in> set ([97..<123] @ [65..<91]) \<longleftrightarrow> isAsciiLetter c"
  unfolding set_append set_upt isAsciiLetter_def by auto

lemma scheme_class:
  "c \<in> set ([97..<123] @ [65..<91] @ [48..<58] @ [43, 45, 46]) \<longleftrightarrow> isSchemeChar c"
  unfolding set_append set_upt isSchemeChar_def isAsciiLetter_def by auto

lemma scheme_class_subset:
  "set pre \<subseteq> set ([97..<123] @ [65..<91] @ [48..<58] @ [43, 45, 46]) \<longleftrightarrow> list_all isSchemeChar pre"
  unfolding list_all_iff subset_eq scheme_class ..

lemma ABSOLUTE_URL_REGEX_test:
  "regex_test U False ABSOLUTE_URL_REGEX s \<longleftrightarrow> matchesSchemeGrammar s"
proof -
  have "regex_test U False ABSOLUTE_URL_REGEX s \<longleftrightarrow>
          (\<exists>ch rest. s = ch # rest \<and> isAsciiLetter ch \<and>
             (\<exists>pre b rest'. rest = pre @ b # rest' \<and> list_all isSchemeChar pre \<and> b = 58))"
    unfolding ABSOLUTE_URL_REGEX_def regex_test_Bol matcher_Seq_Atom
      matcher_LazyStar_then_Atom charSetMatches_exact letter_class scheme_class_subset
    by simp
  also have "\<dots> \<longleftrightarrow> matchesSchemeGrammar s"
  proof
    assume "\<exists>ch rest. s = ch # rest \<and> isAsciiLetter ch \<and>
             (\<exists>pre b rest'. rest = pre @ b # rest' \<and> list_all isSchemeChar pre \<and> b = 58)"
    then obtain ch pre rest' where "s = (ch # pre) @ 58 # rest'" "isAsciiLetter ch"
      "list_all isSchemeChar pre" by auto
    then have "s = (ch # pre) @ 58 # rest' \<and> ch # pre \<noteq> [] \<and> isAsciiLetter (hd (ch # pre))
      \<and> list_all isSchemeChar (tl (ch # pre))" by simp
    then show "matchesSchemeGrammar s" unfolding matchesSchemeGrammar_def by blast
  next
    assume "matchesSchemeGrammar s"
    then obtain scheme rest where h: "s = scheme @ 58 # rest" "scheme \<noteq> []"
      "isAsciiLetter (hd scheme)" "list_all isSchemeChar (tl scheme)"
      unfolding matchesSchemeGrammar_def by blast
    then obtain ch pre where "scheme = ch # pre" by (cases scheme) auto
    with h show "\<exists>ch rest. s = ch # rest \<and> isAsciiLetter ch \<and>
             (\<exists>pre b rest'. rest = pre @ b # rest' \<and> list_all isSchemeChar pre \<and> b = 58)"
      by auto
  qed
  finally show ?thesis .
qed

lemma Canonicalize_ascii:
  "ch < 128 \<Longrightarrow> Canonicalize U True ch = (if 97 \<le> ch \<and> ch \<le> 122 then ch - 32 else ch)"
  by (auto simp: Canonicalize_def upperCodePoint_def CodePointsToString_def UTF16EncodeCodePoint_def)

lemma Canonicalize_non_ascii: "128 \<le> ch \<Longrightarrow> 128 \<le> Canonicalize U True ch"
  by (auto simp: Canonicalize_def split: list.splits)

lemma charSetMatches_ignoreCase:
  assumes "k < 128" "\<not> (65 \<le> k \<and> k \<le> 90)"
  shows "charSetMatches U True [k] ch \<longleftrightarrow> asciiLower ch = k"
proof (cases "ch < 128")
  case True
  with assms show ?thesis
    by (auto simp: charSetMatches_def Canonicalize_ascii asciiLower_def)
next
  case False
  then have "128 \<le> Canonicalize U True ch" by (simp add: Canonicalize_non_ascii)
  moreover have "Canonicalize U True k < 128" using assms by (auto simp: Canonicalize_ascii)
  ultimately show ?thesis using False assms by (auto simp: charSetMatches_def asciiLower_def)
qed

lemma asciiLower_fixed: "\<not> (65 \<le> k \<and> k \<le> 90) \<Longrightarrow> asciiLower k = k"
  by (simp add: asciiLower_def)

lemma matcher_Seq_Atom_ignoreCase:
  assumes "k < 128" "\<not> (65 \<le> k \<and> k \<le> 90)"
    and "\<And>x. matcher U True inp r x \<noteq> [] \<longleftrightarrow>
           startsWithIgnoreCase p x \<or> startsWithIgnoreCase q x"
  shows "matcher U True inp (Seq (Atom [k]) r) s \<noteq> [] \<longleftrightarrow>
           startsWithIgnoreCase (k # p) s \<or> startsWithIgnoreCase (k # q) s"
proof (cases s)
  case Nil
  then show ?thesis by simp
next
  case (Cons c cs)
  have "matcher U True inp (Seq (Atom [k]) r) (c # cs) \<noteq> [] \<longleftrightarrow>
          asciiLower c = k \<and> matcher U True inp r cs \<noteq> []"
    using assms(1,2) by (simp add: charSetMatches_ignoreCase)
  then show ?thesis
    unfolding Cons assms(3) using assms(2) by (auto simp: asciiLower_fixed)
qed

lemma matcher_optional_s_colon:
  "matcher U True inp (Seq (Optional (Atom [115])) (Atom [58])) s \<noteq> [] \<longleftrightarrow>
     startsWithIgnoreCase [58] s \<or> startsWithIgnoreCase [115, 58] s"
proof (cases s)
  case Nil
  then show ?thesis by simp
next
  case (Cons c cs)
  then show ?thesis
    by (cases cs) (auto simp: charSetMatches_ignoreCase asciiLower_fixed)
qed

lemma js_http: "js ''http:'' = [104, 116, 116, 112, 58]"
  and js_https: "js ''https:'' = [104, 116, 116, 112, 115, 58]"
  by (simp_all add: js_def)

lemma HTTP_PROTOCOLS_REGEX_test:
  "regex_test U True HTTP_PROTOCOLS_REGEX s \<longleftrightarrow>
     startsWithIgnoreCase (js ''http:'') s \<or> startsWithIgnoreCase (js ''https:'') s"
proof -
  note step = matcher_Seq_Atom_ignoreCase
  have p: "\<And>x. matcher U True inp (Seq (Atom [112]) (Seq (Optional (Atom [115])) (Atom [58]))) x \<noteq> []
      \<longleftrightarrow> startsWithIgnoreCase [112, 58] x \<or> startsWithIgnoreCase [112, 115, 58] x" for inp
    by (rule step [OF _ _ matcher_optional_s_colon]) simp_all
  have t: "\<And>x. matcher U True inp (Seq (Atom [116]) (Seq (Atom [112]) (Seq (Optional (Atom [115])) (Atom [58])))) x \<noteq> []
      \<longleftrightarrow> startsWithIgnoreCase [116, 112, 58] x \<or> startsWithIgnoreCase [116, 112, 115, 58] x" for inp
    by (rule step [OF _ _ p]) simp_all
  have tt: "\<And>x. matcher U True inp (Seq (Atom [116]) (Seq (Atom [116]) (Seq (Atom [112]) (Seq (Optional (Atom [115])) (Atom [58]))))) x \<noteq> []
      \<longleftrightarrow> startsWithIgnoreCase [116, 116, 112, 58] x \<or> startsWithIgnoreCase [116, 116, 112, 115, 58] x" for inp
    by (rule step [OF _ _ t]) simp_all
  have "matcher U True s (Seq (Atom [104]) (Seq (Atom [116]) (Seq (Atom [116]) (Seq (Atom [112]) (Seq (Optional (Atom [115])) (Atom [58])))))) s \<noteq> []
      \<longleftrightarrow> startsWithIgnoreCase [104, 116, 116, 112, 58] s \<or> startsWithIgnoreCase [104, 116, 116, 112, 115, 58] s"
    by (rule step [OF _ _ tt]) simp_all
  then show ?thesis
    unfolding HTTP_PROTOCOLS_REGEX_def regex_test_Bol js_http js_https .
qed

lemma CodePointsToString_append:
  "CodePointsToString (xs @ ys) = CodePointsToString xs @ CodePointsToString ys"
  by (simp add: CodePointsToString_def)

lemma CodePointsToString_Cons:
  "CodePointsToString (x # xs) = UTF16EncodeCodePoint x @ CodePointsToString xs"
  by (simp add: CodePointsToString_def)

lemma hd_UTF16EncodeCodePoint:
  "hd (UTF16EncodeCodePoint m) = m \<or> 0xD800 \<le> hd (UTF16EncodeCodePoint m)"
  by (simp add: UTF16EncodeCodePoint_def)

lemma UTF16EncodeCodePoint_ne: "UTF16EncodeCodePoint m \<noteq> []"
  by (simp add: UTF16EncodeCodePoint_def)

lemma toLowercase_http_chars:
  assumes ok: "lowercaseAvoidsHttp U"
  shows "set t \<subseteq> {104, 116, 112, 115, 58} \<Longrightarrow> CodePointsToString (toLowercase U pre cps) = t
    \<Longrightarrow> (\<forall>c\<in>set cps. c < 128) \<and> map asciiLower cps = t"
proof (induction cps arbitrary: pre t)
  case Nil
  then show ?case by (simp add: CodePointsToString_def)
next
  case (Cons c cps)
  let ?rest = "CodePointsToString (toLowercase U (pre @ [c]) cps)"
  have eq: "CodePointsToString (lowerCodePoint U pre c cps) @ ?rest = t"
    using Cons.prems(2) by (simp add: CodePointsToString_append)
  show ?case
  proof (cases "c < 128")
    case True
    then have "lowerCodePoint U pre c cps = [asciiLower c]"
      by (simp add: lowerCodePoint_def asciiLower_def)
    moreover have "asciiLower c \<le> 0xFFFF" using True by (simp add: asciiLower_def)
    ultimately have t: "t = asciiLower c # ?rest"
      using eq by (simp add: CodePointsToString_def UTF16EncodeCodePoint_def)
    then have "set ?rest \<subseteq> {104, 116, 112, 115, 58}" using Cons.prems(1) by auto
    from Cons.IH [OF this refl] t True show ?thesis by simp
  next
    case False
    then have low: "lowerCodePoint U pre c cps = lowercaseMapping U pre c cps"
      by (simp add: lowerCodePoint_def)
    from False ok obtain m ms where m: "lowercaseMapping U pre c cps = m # ms"
      "m \<notin> {104, 116, 112, 115, 58}"
      unfolding lowercaseAvoidsHttp_def
      by (metis list.exhaust_sel not_less)
    have "hd t = hd (UTF16EncodeCodePoint m)"
      using eq UTF16EncodeCodePoint_ne [of m] unfolding low m(1) CodePointsToString_Cons
      by (metis hd_append2 append_assoc)
    moreover have "t \<noteq> []"
      using eq UTF16EncodeCodePoint_ne [of m] unfolding low m(1) CodePointsToString_Cons by auto
    then have "hd t \<in> {104, 116, 112, 115, 58}" using Cons.prems(1) by (cases t) auto
    ultimately show ?thesis using hd_UTF16EncodeCodePoint [of m] m(2) by auto
  qed
qed

lemma StringToCodePoints_ascii:
  "\<forall>c\<in>set (StringToCodePoints s). c < 128 \<Longrightarrow> StringToCodePoints s = s"
  by (induction s rule: StringToCodePoints.induct) (auto split: if_splits)

lemma toLowerCase_http_chars:
  assumes "lowercaseAvoidsHttp U" "set t \<subseteq> {104, 116, 112, 115, 58}" "toLowerCase U s = t"
  shows "map asciiLower s = t"
proof -
  from toLowercase_http_chars [OF assms(1,2)] assms(3)
  have *: "\<forall>c\<in>set (StringToCodePoints s). c < 128" "map asciiLower (StringToCodePoints s) = t"
    unfolding toLowerCase_def by blast+
  from StringToCodePoints_ascii [OF *(1)] *(2) show ?thesis by simp
qed

lemma startsWithIgnoreCase_take:
  "startsWithIgnoreCase p s \<longleftrightarrow>
     length p \<le> length s \<and> map asciiLower (take (length p) s) = map asciiLower p"
  by (induction p s rule: startsWithIgnoreCase.induct) auto

lemma codePointAt_small:
  "k < 0xD800 \<Longrightarrow> codePointAt s i = Some k \<longleftrightarrow> i < length s \<and> s ! i = k"
  by (auto simp: codePointAt_def Let_def)

lemma length_ge_5: "4 < length s \<Longrightarrow> \<exists>a b c d e r. s = a # b # c # d # e # r"
  by (cases s; simp; cases "tl s"; simp; cases "tl (tl s)"; simp; cases "tl (tl (tl s))"; simp;
      cases "tl (tl (tl (tl s)))"; simp)

lemma startsWith_http_nth:
  assumes "4 < length s" "asciiLower (s ! 0) = 104" "asciiLower (s ! 1) = 116"
    "asciiLower (s ! 2) = 116" "asciiLower (s ! 3) = 112" "asciiLower (s ! 4) = 58"
  shows "startsWithIgnoreCase (js ''http:'') s"
proof -
  from length_ge_5 [OF assms(1)] obtain a b c d e r where "s = a # b # c # d # e # r" by blast
  with assms show ?thesis by (simp add: js_http asciiLower_fixed)
qed

lemma startsWith_https_nth:
  assumes "5 < length s" "asciiLower (s ! 0) = 104" "asciiLower (s ! 1) = 116"
    "asciiLower (s ! 2) = 116" "asciiLower (s ! 3) = 112" "asciiLower (s ! 4) = 115"
    "asciiLower (s ! 5) = 58"
  shows "startsWithIgnoreCase (js ''https:'') s"
proof -
  from assms(1) have "4 < length s" by simp
  from length_ge_5 [OF this] obtain a b c d e r where s: "s = a # b # c # d # e # r" by blast
  with assms(1) obtain f r' where "r = f # r'" by (cases r) auto
  with s assms show ?thesis by (simp add: js_https asciiLower_fixed)
qed

lemma if_True_disj: "(if P then True else Q) \<longleftrightarrow> P \<or> Q"
  by simp

lemma hasCommonHttpProtocol_cases:
  "hasCommonHttpProtocol U s \<longleftrightarrow>
      (codePointAt s 0 = Some 104 \<and> codePointAt s 1 = Some 116 \<and> codePointAt s 2 = Some 116
        \<and> codePointAt s 3 = Some 112 \<and> codePointAt s 4 = Some 58)
    \<or> (codePointAt s 0 = Some 72 \<and> codePointAt s 1 = Some 84 \<and> codePointAt s 2 = Some 84
        \<and> codePointAt s 3 = Some 80 \<and> codePointAt s 4 = Some 58)
    \<or> (codePointAt s 0 = Some 104 \<and> codePointAt s 1 = Some 116 \<and> codePointAt s 2 = Some 116
        \<and> codePointAt s 3 = Some 112 \<and> codePointAt s 4 = Some 115 \<and> codePointAt s 5 = Some 58)
    \<or> (codePointAt s 0 = Some 72 \<and> codePointAt s 1 = Some 84 \<and> codePointAt s 2 = Some 84
        \<and> codePointAt s 3 = Some 80 \<and> codePointAt s 4 = Some 83 \<and> codePointAt s 5 = Some 58)
    \<or> toLowerCase U (slice s 0 6) = js ''http:''
    \<or> toLowerCase U (slice s 0 6) = js ''https:''"
  unfolding hasCommonHttpProtocol_def Let_def if_True_disj ..

lemma hasCommonHttpProtocol_prefix:
  assumes ok: "lowercaseAvoidsHttp U" and h: "hasCommonHttpProtocol U s"
  shows "startsWithIgnoreCase (js ''http:'') s \<or> startsWithIgnoreCase (js ''https:'') s"
proof -
  let ?c = "codePointAt s"
  from h consider
      (lower5) "?c 0 = Some 104" "?c 1 = Some 116" "?c 2 = Some 116" "?c 3 = Some 112" "?c 4 = Some 58"
    | (upper5) "?c 0 = Some 72" "?c 1 = Some 84" "?c 2 = Some 84" "?c 3 = Some 80" "?c 4 = Some 58"
    | (lower6) "?c 0 = Some 104" "?c 1 = Some 116" "?c 2 = Some 116" "?c 3 = Some 112"
        "?c 4 = Some 115" "?c 5 = Some 58"
    | (upper6) "?c 0 = Some 72" "?c 1 = Some 84" "?c 2 = Some 84" "?c 3 = Some 80"
        "?c 4 = Some 83" "?c 5 = Some 58"
    | (mixed5) "toLowerCase U (slice s 0 6) = js ''http:''"
    | (mixed6) "toLowerCase U (slice s 0 6) = js ''https:''"
    unfolding hasCommonHttpProtocol_cases by blast
  then show ?thesis
  proof cases
    case lower5
    then have "4 < length s" "s ! 0 = 104" "s ! 1 = 116" "s ! 2 = 116" "s ! 3 = 112" "s ! 4 = 58"
      by (simp_all add: codePointAt_small)
    then have "startsWithIgnoreCase (js ''http:'') s"
      by (intro startsWith_http_nth) (simp_all add: asciiLower_def)
    then show ?thesis ..
  next
    case upper5
    then have "4 < length s" "s ! 0 = 72" "s ! 1 = 84" "s ! 2 = 84" "s ! 3 = 80" "s ! 4 = 58"
      by (simp_all add: codePointAt_small)
    then have "startsWithIgnoreCase (js ''http:'') s"
      by (intro startsWith_http_nth) (simp_all add: asciiLower_def)
    then show ?thesis ..
  next
    case lower6
    then have "5 < length s" "s ! 0 = 104" "s ! 1 = 116" "s ! 2 = 116" "s ! 3 = 112"
      "s ! 4 = 115" "s ! 5 = 58"
      by (simp_all add: codePointAt_small)
    then have "startsWithIgnoreCase (js ''https:'') s"
      by (intro startsWith_https_nth) (simp_all add: asciiLower_def)
    then show ?thesis ..
  next
    case upper6
    then have "5 < length s" "s ! 0 = 72" "s ! 1 = 84" "s ! 2 = 84" "s ! 3 = 80"
      "s ! 4 = 83" "s ! 5 = 58"
      by (simp_all add: codePointAt_small)
    then have "startsWithIgnoreCase (js ''https:'') s"
      by (intro startsWith_https_nth) (simp_all add: asciiLower_def)
    then show ?thesis ..
  next
    case mixed5
    have "map asciiLower (take 6 s) = [104, 116, 116, 112, 58]"
      using toLowerCase_http_chars [OF ok _ mixed5 [unfolded js_http]] by (simp add: slice_def)
    moreover from this have "length (map asciiLower (take 6 s)) = 5" by simp
    then have "length s = 5" by (simp add: min_def split: if_splits)
    ultimately have "startsWithIgnoreCase (js ''http:'') s"
      unfolding startsWithIgnoreCase_take js_http by (simp add: asciiLower_fixed)
    then show ?thesis ..
  next
    case mixed6
    have m: "map asciiLower (take 6 s) = [104, 116, 116, 112, 115, 58]"
      using toLowerCase_http_chars [OF ok _ mixed6 [unfolded js_https]] by (simp add: slice_def)
    then have "length (map asciiLower (take 6 s)) = 6" by simp
    then have l: "6 \<le> length s" by (simp add: min_def split: if_splits)
    have len: "length [104, 116, 116, 112, 115, 58::nat] = 6" by simp
    have "startsWithIgnoreCase (js ''https:'') s"
      unfolding startsWithIgnoreCase_take js_https len using m l by (simp add: asciiLower_fixed)
    then show ?thesis ..
  qed
qed

subsection \<open>The platform path and the scheme token\<close>

lemma length_ge_3: "\<not> length s < 3 \<Longrightarrow> \<exists>a b c r. s = a # b # c # r"
  by (cases s; simp; cases "tl s"; simp; cases "tl (tl s)"; simp)

lemma isWindowsPath_iff: "isWindowsPath s \<longleftrightarrow> isPlatformPath s"
proof (cases "length s < 3")
  case True
  then have "\<not> isPlatformPath s" by (auto simp: isPlatformPath_def)
  with True show ?thesis by (simp add: isWindowsPath_def)
next
  case False
  from length_ge_3 [OF this] obtain a b c r where s: "s = a # b # c # r" by blast
  have 1: "codePointAt s 1 = Some 58 \<longleftrightarrow> b = 58"
    using s by (simp add: codePointAt_small)
  have 2: "codePointAt s 2 = Some 92 \<longleftrightarrow> c = 92"
    using s by (simp add: codePointAt_small)
  have 0: "b = 58 \<Longrightarrow> codePointAt s 0 = Some a"
    using s by (simp add: codePointAt_def)
  show ?thesis
  proof
    assume "isWindowsPath s"
    then have w: "(js_ge (codePointAt s 0) 65 \<and> js_le (codePointAt s 0) 90)
        \<or> (js_ge (codePointAt s 0) 97 \<and> js_le (codePointAt s 0) 122)" "b = 58" "c = 92"
      using False 1 2 by (simp_all add: isWindowsPath_def Let_def)
    with 0 have "isAsciiLetter a" by (simp add: isAsciiLetter_def)
    with w s show "isPlatformPath s" by (simp add: isPlatformPath_def)
  next
    assume "isPlatformPath s"
    with s have p: "isAsciiLetter a" "b = 58" "c = 92" by (simp_all add: isPlatformPath_def)
    with 0 have "(js_ge (codePointAt s 0) 65 \<and> js_le (codePointAt s 0) 90)
        \<or> (js_ge (codePointAt s 0) 97 \<and> js_le (codePointAt s 0) 122)"
      by (simp add: isAsciiLetter_def)
    with p False 1 2 show "isWindowsPath s" by (simp add: isWindowsPath_def Let_def)
  qed
qed

lemma isPlatformPath_grammar: "isPlatformPath s \<Longrightarrow> matchesSchemeGrammar s"
proof -
  assume "isPlatformPath s"
  then obtain l rest where "s = [l] @ 58 # 92 # rest" "isAsciiLetter l"
    by (auto simp: isPlatformPath_def)
  then have "s = [l] @ 58 # (92 # rest) \<and> [l] \<noteq> [] \<and> isAsciiLetter (hd [l])
      \<and> list_all isSchemeChar (tl [l])" by simp
  then show ?thesis unfolding matchesSchemeGrammar_def by blast
qed

lemma asciiLower_letter:
  "asciiLower c = k \<Longrightarrow> 97 \<le> k \<Longrightarrow> k \<le> 122 \<Longrightarrow> isAsciiLetter c"
  by (auto simp: asciiLower_def isAsciiLetter_def split: if_splits)

lemma asciiLower_colon: "asciiLower c = 58 \<longleftrightarrow> c = 58"
  by (auto simp: asciiLower_def)

lemma startsWithIgnoreCase_Cons:
  "startsWithIgnoreCase (p # ps) s \<longleftrightarrow>
     (\<exists>c cs. s = c # cs \<and> asciiLower c = asciiLower p \<and> startsWithIgnoreCase ps cs)"
  by (cases s) auto

lemma startsWith_http_shape:
  "startsWithIgnoreCase (js ''http:'') s \<longleftrightarrow>
     (\<exists>a b c d r. s = a # b # c # d # 58 # r \<and> asciiLower a = 104 \<and> asciiLower b = 116
        \<and> asciiLower c = 116 \<and> asciiLower d = 112)"
  unfolding js_http startsWithIgnoreCase_Cons
  by (auto simp: asciiLower_fixed asciiLower_colon)

lemma startsWith_https_shape:
  "startsWithIgnoreCase (js ''https:'') s \<longleftrightarrow>
     (\<exists>a b c d e r. s = a # b # c # d # e # 58 # r \<and> asciiLower a = 104 \<and> asciiLower b = 116
        \<and> asciiLower c = 116 \<and> asciiLower d = 112 \<and> asciiLower e = 115)"
  unfolding js_https startsWithIgnoreCase_Cons
  by (auto simp: asciiLower_fixed asciiLower_colon)

lemma schemeToken_grammar:
  assumes "matchesSchemeGrammar s"
  shows "\<exists>rest. s = schemeToken s @ 58 # rest"
proof -
  from assms obtain scheme rest where h: "s = scheme @ 58 # rest" "scheme \<noteq> []"
    "isAsciiLetter (hd scheme)" "list_all isSchemeChar (tl scheme)"
    unfolding matchesSchemeGrammar_def by blast
  then obtain l t where sc: "scheme = l # t" by (cases scheme) auto
  have "\<forall>c\<in>set scheme. c \<noteq> 58"
    using h(3,4) unfolding sc by (auto simp: list_all_iff isSchemeChar_def isAsciiLetter_def)
  then have "schemeToken s = scheme"
    unfolding schemeToken_def h(1) by (simp add: takeWhile_append2)
  with h(1) show ?thesis by auto
qed

lemma js_http_token: "js ''http'' = [104, 116, 116, 112]"
  and js_https_token: "js ''https'' = [104, 116, 116, 112, 115]"
  by (simp_all add: js_def)

lemma asciiLower_not_colon: "asciiLower a = k \<Longrightarrow> k \<noteq> 58 \<Longrightarrow> a \<noteq> 58"
  by (auto simp: asciiLower_def)

lemma http_token_iff:
  assumes "matchesSchemeGrammar s"
  shows "equalsIgnoreCase (schemeToken s) (js ''http'') \<longleftrightarrow> startsWithIgnoreCase (js ''http:'') s"
proof
  assume "equalsIgnoreCase (schemeToken s) (js ''http'')"
  then have "map asciiLower (schemeToken s) = [104, 116, 116, 112]"
    by (simp add: equalsIgnoreCase_def js_http_token asciiLower_fixed)
  then obtain a b c d where t: "schemeToken s = [a, b, c, d]" "asciiLower a = 104"
    "asciiLower b = 116" "asciiLower c = 116" "asciiLower d = 112"
    by (auto simp: map_eq_Cons_conv)
  from schemeToken_grammar [OF assms] obtain rest where "s = schemeToken s @ 58 # rest" ..
  with t show "startsWithIgnoreCase (js ''http:'') s"
    unfolding startsWith_http_shape by simp
next
  assume "startsWithIgnoreCase (js ''http:'') s"
  then obtain a b c d r where s: "s = a # b # c # d # 58 # r" "asciiLower a = 104"
    "asciiLower b = 116" "asciiLower c = 116" "asciiLower d = 112"
    unfolding startsWith_http_shape by blast
  then have "a \<noteq> 58" "b \<noteq> 58" "c \<noteq> 58" "d \<noteq> 58"
    by (auto dest: asciiLower_not_colon)
  with s have "schemeToken s = [a, b, c, d]" by (simp add: schemeToken_def)
  with s show "equalsIgnoreCase (schemeToken s) (js ''http'')"
    by (simp add: equalsIgnoreCase_def js_http_token asciiLower_fixed)
qed

lemma https_token_iff:
  assumes "matchesSchemeGrammar s"
  shows "equalsIgnoreCase (schemeToken s) (js ''https'') \<longleftrightarrow> startsWithIgnoreCase (js ''https:'') s"
proof
  assume "equalsIgnoreCase (schemeToken s) (js ''https'')"
  then have "map asciiLower (schemeToken s) = [104, 116, 116, 112, 115]"
    by (simp add: equalsIgnoreCase_def js_https_token asciiLower_fixed)
  then obtain a b c d e where t: "schemeToken s = [a, b, c, d, e]" "asciiLower a = 104"
    "asciiLower b = 116" "asciiLower c = 116" "asciiLower d = 112" "asciiLower e = 115"
    by (auto simp: map_eq_Cons_conv)
  from schemeToken_grammar [OF assms] obtain rest where "s = schemeToken s @ 58 # rest" ..
  with t show "startsWithIgnoreCase (js ''https:'') s"
    unfolding startsWith_https_shape by simp
next
  assume "startsWithIgnoreCase (js ''https:'') s"
  then obtain a b c d e r where s: "s = a # b # c # d # e # 58 # r" "asciiLower a = 104"
    "asciiLower b = 116" "asciiLower c = 116" "asciiLower d = 112" "asciiLower e = 115"
    unfolding startsWith_https_shape by blast
  then have "a \<noteq> 58" "b \<noteq> 58" "c \<noteq> 58" "d \<noteq> 58" "e \<noteq> 58"
    by (auto dest: asciiLower_not_colon)
  with s have "schemeToken s = [a, b, c, d, e]" by (simp add: schemeToken_def)
  with s show "equalsIgnoreCase (schemeToken s) (js ''https'')"
    by (simp add: equalsIgnoreCase_def js_https_token asciiLower_fixed)
qed

lemma startsWith_http_grammar:
  assumes "startsWithIgnoreCase (js ''http:'') s \<or> startsWithIgnoreCase (js ''https:'') s"
  shows "matchesSchemeGrammar s"
proof -
  have sc: "isSchemeChar c" if "asciiLower c = k" "97 \<le> k" "k \<le> 122" for c k
    using asciiLower_letter [OF that] by (simp add: isSchemeChar_def)
  from assms consider
      a b c d r where "s = a # b # c # d # 58 # r" "asciiLower a = 104" "asciiLower b = 116"
        "asciiLower c = 116" "asciiLower d = 112"
    | a b c d e r where "s = a # b # c # d # e # 58 # r" "asciiLower a = 104"
        "asciiLower b = 116" "asciiLower c = 116" "asciiLower d = 112" "asciiLower e = 115"
    unfolding startsWith_http_shape startsWith_https_shape by blast
  then show ?thesis
  proof cases
    case 1
    then have "s = [a, b, c, d] @ 58 # r \<and> [a, b, c, d] \<noteq> [] \<and> isAsciiLetter (hd [a, b, c, d])
        \<and> list_all isSchemeChar (tl [a, b, c, d])"
      by (auto intro: sc asciiLower_letter)
    then show ?thesis unfolding matchesSchemeGrammar_def by blast
  next
    case 2
    then have "s = [a, b, c, d, e] @ 58 # r \<and> [a, b, c, d, e] \<noteq> []
        \<and> isAsciiLetter (hd [a, b, c, d, e]) \<and> list_all isSchemeChar (tl [a, b, c, d, e])"
      by (auto intro: sc asciiLower_letter)
    then show ?thesis unfolding matchesSchemeGrammar_def by blast
  qed
qed

lemma startsWith_http_not_platform:
  assumes "startsWithIgnoreCase (js ''http:'') s \<or> startsWithIgnoreCase (js ''https:'') s"
  shows "\<not> isPlatformPath s"
  using assms unfolding startsWith_http_shape startsWith_https_shape isPlatformPath_def
  by (auto dest: asciiLower_not_colon)

subsection \<open>The decision and the Map operations\<close>

lemma classify_anyScheme:
  "classify U s False \<longleftrightarrow> matchesSchemeGrammar s \<and> \<not> isPlatformPath s"
  by (simp add: classify_def isWindowsPath_iff ABSOLUTE_URL_REGEX_test)

lemma classify_http_prefix:
  assumes "startsWithIgnoreCase (js ''http:'') s \<or> startsWithIgnoreCase (js ''https:'') s"
  shows "classify U s True"
  using assms startsWith_http_grammar [OF assms] startsWith_http_not_platform [OF assms]
  by (simp add: classify_def isWindowsPath_iff ABSOLUTE_URL_REGEX_test HTTP_PROTOCOLS_REGEX_test)

lemma classify_httpOnly:
  assumes "lowercaseAvoidsHttp U"
  shows "classify U s True \<longleftrightarrow>
    startsWithIgnoreCase (js ''http:'') s \<or> startsWithIgnoreCase (js ''https:'') s"
proof
  assume "classify U s True"
  then show "startsWithIgnoreCase (js ''http:'') s \<or> startsWithIgnoreCase (js ''https:'') s"
    using hasCommonHttpProtocol_prefix [OF assms, of s]
    by (auto simp: classify_def HTTP_PROTOCOLS_REGEX_test split: if_splits)
next
  assume "startsWithIgnoreCase (js ''http:'') s \<or> startsWithIgnoreCase (js ''https:'') s"
  then show "classify U s True" by (rule classify_http_prefix)
qed

lemma noFastPath_anyScheme: "isAbsoluteUrl_noFastPath U s False = classify U s False"
  by (simp add: isAbsoluteUrl_noFastPath_def classify_def)

lemma noFastPath_httpOnly:
  "isAbsoluteUrl_noFastPath U s True \<longleftrightarrow>
     startsWithIgnoreCase (js ''http:'') s \<or> startsWithIgnoreCase (js ''https:'') s"
  using startsWith_http_grammar [of s] startsWith_http_not_platform [of s]
  by (auto simp: isAbsoluteUrl_noFastPath_def isWindowsPath_iff ABSOLUTE_URL_REGEX_test
      HTTP_PROTOCOLS_REGEX_test)

lemma classify_noFastPath:
  assumes "lowercaseAvoidsHttp U"
  shows "classify U s h = isAbsoluteUrl_noFastPath U s h"
  by (cases h) (simp_all add: noFastPath_anyScheme noFastPath_httpOnly classify_httpOnly [OF assms])

lemma noFastPath_reference: "isAbsoluteUrl_noFastPath U s h = isAbsoluteUrl_reference s h"
proof (cases "matchesSchemeGrammar s")
  case True
  then show ?thesis
    by (simp add: isAbsoluteUrl_noFastPath_def isAbsoluteUrl_reference_def isWindowsPath_iff
        ABSOLUTE_URL_REGEX_test HTTP_PROTOCOLS_REGEX_test http_token_iff https_token_iff)
next
  case False
  then show ?thesis
    by (simp add: isAbsoluteUrl_noFastPath_def isAbsoluteUrl_reference_def isWindowsPath_iff
        ABSOLUTE_URL_REGEX_test)
qed

lemma cacheKey_boolean: "cacheKey s (JSBoolean h) = Inr (booleanKey s h)"
  by (simp add: cacheKey_def booleanKey_def)

lemma booleanKey_inject: "booleanKey s h = booleanKey s' h' \<longleftrightarrow> s = s' \<and> h = h'"
proof
  assume eq: "booleanKey s h = booleanKey s' h'"
  then have r: "rev (js ''|'' @ (if h then js ''true'' else js ''false'')) @ rev s
      = rev (js ''|'' @ (if h' then js ''true'' else js ''false'')) @ rev s'"
    unfolding booleanKey_def by (metis rev_append)
  have "h = h'"
    using r by (cases h; cases h') (simp_all add: js_def)
  with eq show "s = s' \<and> h = h'" by (simp add: booleanKey_def)
qed simp

lemma cacheKey_inject:
  "cacheKey s (JSBoolean h) = cacheKey s' (JSBoolean h') \<longleftrightarrow> s = s' \<and> h = h'"
  by (simp add: cacheKey_boolean booleanKey_inject)

lemma contractOptions_iff:
  "contractOptions opts \<longleftrightarrow> (\<exists>h. resolveHttpOnly opts = Inr (JSBoolean h))"
proof (cases opts)
  case (OptionsObject v)
  then show ?thesis by (cases v) (auto simp: resolveHttpOnly_def)
qed (auto simp: resolveHttpOnly_def)

lemma isAbsoluteUrl_string:
  assumes "resolveHttpOnly opts = Inr v" "cacheKey s v = Inr key"
  shows "isAbsoluteUrl U (JSString s) opts c =
     (case map_get c key of
        Some stored \<Rightarrow> (Inr stored, c)
      | None \<Rightarrow> cacheAndReturn c key (classify U s (ToBoolean v)))"
  using assms by (simp add: isAbsoluteUrl_def classify_def split: option.splits)

lemma isAbsoluteUrl_boolean:
  assumes "resolveHttpOnly opts = Inr (JSBoolean h)"
  shows "isAbsoluteUrl U (JSString s) opts c =
     (case map_get c (booleanKey s h) of
        Some stored \<Rightarrow> (Inr stored, c)
      | None \<Rightarrow> cacheAndReturn c (booleanKey s h) (classify U s h))"
  using isAbsoluteUrl_string [OF assms cacheKey_boolean, of U s c]
  by (simp split: option.splits)

lemma isAbsoluteUrl_throws:
  "resolveHttpOnly opts = Inl e \<Longrightarrow> isAbsoluteUrl U (JSString s) opts c = (Inl e, c)"
  "resolveHttpOnly opts = Inr v \<Longrightarrow> cacheKey s v = Inl e \<Longrightarrow>
     isAbsoluteUrl U (JSString s) opts c = (Inl e, c)"
  by (simp_all add: isAbsoluteUrl_def)

lemma isAbsoluteUrl_not_string:
  "typeof url \<noteq> js ''string'' \<Longrightarrow>
     isAbsoluteUrl U url opts c =
       (Inl (TypeError (js ''Expected a `string`, got `'' @ typeof url @ js ''`'')), c)"
  by (cases url) (simp_all add: isAbsoluteUrl_def)

lemma typeof_string: "typeof url = js ''string'' \<longleftrightarrow> (\<exists>s. url = JSString s)"
  by (cases url) (simp_all add: js_def)

text \<open>The three ways a call on a string ends.\<close>

lemma isAbsoluteUrl_cases:
  obtains (throws) e where "isAbsoluteUrl U (JSString s) opts c = (Inl e, c)"
      "resolveHttpOnly opts = Inl e \<or> (\<exists>v. resolveHttpOnly opts = Inr v \<and> cacheKey s v = Inl e)"
    | (hit) v key stored where "resolveHttpOnly opts = Inr v" "cacheKey s v = Inr key"
      "map_get c key = Some stored" "isAbsoluteUrl U (JSString s) opts c = (Inr stored, c)"
    | (miss) v key where "resolveHttpOnly opts = Inr v" "cacheKey s v = Inr key"
      "map_get c key = None"
      "isAbsoluteUrl U (JSString s) opts c = cacheAndReturn c key (classify U s (ToBoolean v))"
proof (cases "resolveHttpOnly opts")
  case (Inl e)
  then show ?thesis using throws isAbsoluteUrl_throws(1) by blast
next
  case (Inr v)
  show ?thesis
  proof (cases "cacheKey s v")
    case (Inl e)
    with Inr show ?thesis using throws isAbsoluteUrl_throws(2) by blast
  next
    case key: (Inr key)
    show ?thesis
    proof (cases "map_get c key")
      case None
      with isAbsoluteUrl_string [OF Inr key, of U c] show ?thesis using miss Inr key by simp
    next
      case (Some stored)
      with isAbsoluteUrl_string [OF Inr key, of U c] show ?thesis using hit Inr key by simp
    qed
  qed
qed

lemma map_set_new: "k \<notin> fst ` set m \<Longrightarrow> map_set m k v = m @ [(k, v)]"
  by (induction m) auto

lemma map_get_None: "map_get m k = None \<longleftrightarrow> k \<notin> fst ` set m"
  by (simp add: map_get_def map_of_eq_None_iff)

lemma map_has_get: "map_has m k \<longleftrightarrow> (\<exists>v. map_get m k = Some v)"
  by (simp add: map_has_def map_get_def)

lemma evict_distinct: "distinct (map fst c) \<Longrightarrow> evictOldestCacheEntry c = tl c"
proof (cases c)
  case Nil
  then show ?thesis by (simp add: evictOldestCacheEntry_def map_firstKey_def)
next
  case (Cons p ps)
  assume "distinct (map fst c)"
  with Cons have "fst p \<notin> fst ` set ps" by simp
  then have "\<forall>q\<in>set ps. fst q \<noteq> fst p" by (metis imageI)
  then have "filter (\<lambda>q. fst q \<noteq> fst p) ps = ps" by (simp add: filter_id_conv)
  with Cons show ?thesis by (simp add: evictOldestCacheEntry_def map_firstKey_def map_delete_def)
qed

lemma evict_subset: "set (evictOldestCacheEntry c) \<subseteq> set c"
  by (auto simp: evictOldestCacheEntry_def map_firstKey_def map_delete_def split: list.splits)

lemma evict_length: "c \<noteq> [] \<Longrightarrow> length (evictOldestCacheEntry c) < length c"
proof (cases c)
  case (Cons p ps)
  have "length (filter (\<lambda>q. fst q \<noteq> fst p) ps) \<le> length ps" by (rule length_filter_le)
  then have "length (filter (\<lambda>q. fst q \<noteq> fst p) ps) < Suc (length ps)"
    by (simp only: less_Suc_eq_le)
  with Cons show ?thesis
    by (simp add: evictOldestCacheEntry_def map_firstKey_def map_delete_def)
qed simp

lemma cacheAndReturn_miss:
  assumes "map_get c key = None"
  shows "cacheAndReturn c key r =
     (Inr r, (if CACHE_MAX_SIZE \<le> map_size c then evictOldestCacheEntry c else c) @ [(key, r)])"
proof -
  from assms have k: "key \<notin> fst ` set c" by (simp add: map_get_None)
  then have "key \<notin> fst ` set (evictOldestCacheEntry c)" using evict_subset [of c] by auto
  with k show ?thesis by (simp add: cacheAndReturn_def map_set_new)
qed

subsection \<open>The invariant of the Map\<close>

lemma cache_wf_empty: "cache_wf []"
  by (simp add: cache_wf_def)

lemma cache_inv_empty: "cache_inv U []"
  by (simp add: cache_inv_def cache_wf_def)

lemma cache_inv_wf: "cache_inv U c \<Longrightarrow> cache_wf c"
  by (simp add: cache_inv_def)

lemma miss_cache:
  assumes "cache_wf c" "map_get c key = None"
  shows "snd (cacheAndReturn c key r) =
    (if CACHE_MAX_SIZE \<le> map_size c then tl c else c) @ [(key, r)]"
  using assms by (simp add: cacheAndReturn_miss evict_distinct cache_wf_def)

lemma cache_wf_miss:
  assumes wf: "cache_wf c" and miss: "map_get c key = None"
  shows "cache_wf (snd (cacheAndReturn c key r))"
proof -
  let ?c1 = "if CACHE_MAX_SIZE \<le> map_size c then tl c else c"
  have sub: "set ?c1 \<subseteq> set c" by (cases c) auto
  have k: "key \<notin> fst ` set c" using miss by (simp add: map_get_None)
  then have k1: "key \<notin> fst ` set ?c1" using sub by blast
  have d: "distinct (map fst ?c1)" using wf by (auto simp: cache_wf_def distinct_tl map_tl)
  have l: "length ?c1 < CACHE_MAX_SIZE"
    using wf by (cases c) (auto simp: cache_wf_def map_size_def CACHE_MAX_SIZE_def)
  have "cache_wf (?c1 @ [(key, r)])"
    unfolding cache_wf_def using d k1 l by auto
  then show ?thesis by (simp only: miss_cache [OF wf miss])
qed

lemma cache_inv_miss:
  assumes inv: "cache_inv U c" and miss: "map_get c (booleanKey s h) = None"
  shows "cache_inv U (snd (cacheAndReturn c (booleanKey s h) (classify U s h)))"
proof -
  let ?c1 = "if CACHE_MAX_SIZE \<le> map_size c then tl c else c"
  have wf: "cache_wf c" using inv by (rule cache_inv_wf)
  have sub: "set ?c1 \<subseteq> set c" by (cases c) auto
  have e: "\<forall>p\<in>set ?c1. \<exists>s h. fst p = booleanKey s h \<and> snd p = classify U s h"
    using inv sub unfolding cache_inv_def by blast
  have "\<forall>p\<in>set (?c1 @ [(booleanKey s h, classify U s h)]).
      \<exists>s h. fst p = booleanKey s h \<and> snd p = classify U s h"
    using e by auto
  then show ?thesis
    unfolding cache_inv_def using cache_wf_miss [OF wf miss, of "classify U s h"]
    by (simp only: miss_cache [OF wf miss])
qed

lemma cache_wf_step:
  assumes "cache_wf c"
  shows "cache_wf (snd (isAbsoluteUrl U url opts c))"
proof (cases "typeof url = js ''string''")
  case True
  then obtain s where u: "url = JSString s" by (auto simp: typeof_string)
  show ?thesis
  proof (cases rule: isAbsoluteUrl_cases [of U s opts c])
    case (throws e)
    then show ?thesis using assms by (simp add: u)
  next
    case (hit v key stored)
    then show ?thesis using assms by (simp add: u)
  next
    case (miss v key)
    then show ?thesis using cache_wf_miss [OF assms miss(3)] by (simp add: u)
  qed
next
  case False
  then show ?thesis using assms by (simp add: isAbsoluteUrl_not_string)
qed

lemma cache_wf_run: "cache_wf c \<Longrightarrow> cache_wf (run U c calls)"
  by (induction calls arbitrary: c) (simp_all add: cache_wf_step)

lemma cache_inv_step:
  assumes "cache_inv U c" "contractOptions opts"
  shows "cache_inv U (snd (isAbsoluteUrl U url opts c))"
proof (cases "typeof url = js ''string''")
  case True
  then obtain s where u: "url = JSString s" by (auto simp: typeof_string)
  from assms(2) obtain h where h: "resolveHttpOnly opts = Inr (JSBoolean h)"
    by (auto simp: contractOptions_iff)
  show ?thesis
    using assms(1) cache_inv_miss [OF assms(1), of s h]
    unfolding u isAbsoluteUrl_boolean [OF h] by (simp split: option.splits)
next
  case False
  then show ?thesis using assms by (simp add: isAbsoluteUrl_not_string)
qed

lemma cache_inv_run:
  "cache_inv U c \<Longrightarrow> contractCalls calls \<Longrightarrow> cache_inv U (run U c calls)"
  by (induction calls arbitrary: c) (simp_all add: cache_inv_step contractCalls_def)

lemma fresh_result:
  assumes "resolveHttpOnly opts = Inr v" "cacheKey s v = Inr key" "map_get c key = None"
  shows "fst (isAbsoluteUrl U (JSString s) opts c) = Inr (classify U s (ToBoolean v))"
  using assms(3) by (simp add: isAbsoluteUrl_string [OF assms(1,2)] cacheAndReturn_def)

lemma cached_result:
  assumes "cache_inv U c" "resolveHttpOnly opts = Inr (JSBoolean h)"
  shows "fst (isAbsoluteUrl U (JSString s) opts c) = Inr (classify U s h)"
proof (cases "map_get c (booleanKey s h)")
  case None
  then show ?thesis by (simp add: isAbsoluteUrl_boolean [OF assms(2)] cacheAndReturn_def)
next
  case (Some v)
  then have "(booleanKey s h, v) \<in> set c"
    by (simp add: map_get_def map_of_SomeD)
  with assms(1) obtain s' h' where "booleanKey s h = booleanKey s' h'"
    "v = classify U s' h'"
    unfolding cache_inv_def by fastforce
  then have "v = classify U s h" by (simp add: booleanKey_inject)
  with Some show ?thesis by (simp add: isAbsoluteUrl_boolean [OF assms(2)])
qed

lemma run_result:
  assumes "contractCalls calls" "resolveHttpOnly opts = Inr (JSBoolean h)"
  shows "fst (isAbsoluteUrl U (JSString s) opts (run U [] calls)) = Inr (classify U s h)"
  by (rule cached_result [OF cache_inv_run [OF cache_inv_empty assms(1)] assms(2)])

lemma size_step:
  assumes "map_size c \<le> CACHE_MAX_SIZE"
  shows "map_size (snd (isAbsoluteUrl U url opts c)) \<le> CACHE_MAX_SIZE"
proof (cases "typeof url = js ''string''")
  case True
  then obtain s where u: "url = JSString s" by (auto simp: typeof_string)
  show ?thesis
  proof (cases rule: isAbsoluteUrl_cases [of U s opts c])
    case (throws e)
    then show ?thesis using assms by (simp add: u)
  next
    case (hit v key stored)
    then show ?thesis using assms by (simp add: u)
  next
    case (miss v key)
    have "length (evictOldestCacheEntry c) < length c" if "CACHE_MAX_SIZE \<le> length c"
      using that by (intro evict_length) (auto simp: CACHE_MAX_SIZE_def)
    then show ?thesis
      using assms miss(3) unfolding u miss(4)
      by (auto simp: cacheAndReturn_miss map_size_def)
  qed
next
  case False
  then show ?thesis using assms by (simp add: isAbsoluteUrl_not_string)
qed

lemma run_size: "map_size c \<le> CACHE_MAX_SIZE \<Longrightarrow> map_size (run U c calls) \<le> CACHE_MAX_SIZE"
  by (induction calls arbitrary: c) (simp_all add: size_step)

lemma resolve_boolean [simp]: "resolveHttpOnly (OptionsObject (JSBoolean h)) = Inr (JSBoolean h)"
  by (simp add: resolveHttpOnly_def)

lemma resolve_omitted [simp]: "resolveHttpOnly OptionsUndefined = Inr (JSBoolean True)"
  by (simp add: resolveHttpOnly_def)

lemma contractCalls_requests: "contractCalls (map request reqs)"
  by (simp add: contractCalls_def request_def list_all_iff)

lemma request_miss_cache:
  assumes "cache_wf c" "requestKey p \<notin> fst ` set c"
  shows "snd (isAbsoluteUrl U (fst (request p)) (snd (request p)) c) =
    (if CACHE_MAX_SIZE \<le> length c then tl c else c) @ [(requestKey p, classify U (fst p) (snd p))]"
proof -
  have miss: "map_get c (booleanKey (fst p) (snd p)) = None"
    using assms(2) by (simp add: map_get_None requestKey_def)
  have "isAbsoluteUrl U (fst (request p)) (snd (request p)) c =
      cacheAndReturn c (booleanKey (fst p) (snd p)) (classify U (fst p) (snd p))"
    unfolding request_def fst_conv snd_conv isAbsoluteUrl_boolean [OF resolve_boolean] miss
    by simp
  then show ?thesis
    unfolding requestKey_def using miss_cache [OF assms(1) miss] by (simp add: map_size_def)
qed

lemma drop_step:
  assumes "length ks \<le> M" "0 < M"
  shows "drop (length (if M \<le> length ks then tl ks else ks) + 1 + n - M)
           ((if M \<le> length ks then tl ks else ks) @ k # K)
         = drop (length ks + Suc n - M) (ks @ k # K)"
proof (cases "M \<le> length ks")
  case True
  with assms have l: "length ks = M" by simp
  with assms(2) obtain x xs where ks: "ks = x # xs" by (cases ks) auto
  with l have "length xs + 1 + n - M = n" "length ks + Suc n - M = Suc n" by auto
  then show ?thesis using True ks by simp
next
  case False
  then show ?thesis by simp
qed

lemma disjoint_after_insert:
  "k \<notin> K \<Longrightarrow> K \<inter> F = {} \<Longrightarrow> F' \<subseteq> insert k F \<Longrightarrow> K \<inter> F' = {}"
  by blast

lemma run_keys:
  assumes "cache_wf c" "distinct (map requestKey reqs)"
    "set (map requestKey reqs) \<inter> fst ` set c = {}"
  shows "map fst (run U c (map request reqs)) =
    drop (length c + length reqs - CACHE_MAX_SIZE) (map fst c @ map requestKey reqs)"
  using assms
proof (induction reqs arbitrary: c)
  case Nil
  then show ?case by (simp add: cache_wf_def)
next
  case (Cons p reqs)
  let ?key = "requestKey p"
  let ?K = "map requestKey reqs"
  let ?c1 = "if CACHE_MAX_SIZE \<le> length c then tl c else c"
  let ?c' = "snd (isAbsoluteUrl U (fst (request p)) (snd (request p)) c)"
  have knew: "?key \<notin> fst ` set c" using Cons.prems(3) by simp
  have c': "?c' = ?c1 @ [(?key, classify U (fst p) (snd p))]"
    by (rule request_miss_cache [OF Cons.prems(1) knew])
  have inv': "cache_wf ?c'" by (rule cache_wf_step [OF Cons.prems(1)])
  have "set ?c1 \<subseteq> set c" by (cases c) auto
  then have sub: "fst ` set ?c' \<subseteq> insert ?key (fst ` set c)"
    unfolding c' by auto
  have k1: "?key \<notin> set ?K" using Cons.prems(2) by simp
  have k2: "set ?K \<inter> fst ` set c = {}" using Cons.prems(3) by auto
  have dis: "set ?K \<inter> fst ` set ?c' = {}"
    by (rule disjoint_after_insert [OF k1 k2 sub])
  have d: "distinct ?K" using Cons.prems(2) by simp
  have len: "length (map fst c) \<le> CACHE_MAX_SIZE"
    using Cons.prems(1) by (simp add: cache_wf_def)
  have "map fst (run U c (map request (p # reqs))) = map fst (run U ?c' (map request reqs))"
    by simp
  also have "\<dots> = drop (length ?c' + length reqs - CACHE_MAX_SIZE) (map fst ?c' @ ?K)"
    by (rule Cons.IH [OF inv' d dis])
  also have "\<dots> = drop (length (if CACHE_MAX_SIZE \<le> length (map fst c) then tl (map fst c) else map fst c)
        + 1 + length reqs - CACHE_MAX_SIZE)
      ((if CACHE_MAX_SIZE \<le> length (map fst c) then tl (map fst c) else map fst c) @ ?key # ?K)"
  proof (cases "CACHE_MAX_SIZE \<le> length c")
    case True
    then show ?thesis unfolding c' by (cases c) simp_all
  next
    case False
    then show ?thesis unfolding c' by simp
  qed
  also have "\<dots> = drop (length (map fst c) + Suc (length reqs) - CACHE_MAX_SIZE)
      (map fst c @ ?key # ?K)"
    by (rule drop_step [OF len]) (simp add: CACHE_MAX_SIZE_def)
  finally show ?case by simp
qed

lemma requestKey_inj: "inj requestKey"
  by (auto simp: inj_on_def requestKey_def booleanKey_inject prod_eq_iff)

lemma distinct_requestKeys: "distinct reqs \<Longrightarrow> distinct (map requestKey reqs)"
proof -
  have "inj_on requestKey (set reqs)" using requestKey_inj by (rule inj_on_subset) simp
  then show "distinct reqs \<Longrightarrow> distinct (map requestKey reqs)" by (simp add: distinct_map)
qed

lemma run_keys_empty:
  assumes "distinct reqs"
  shows "map fst (run U [] (map request reqs)) =
    drop (length reqs - CACHE_MAX_SIZE) (map requestKey reqs)"
proof -
  have "distinct (map requestKey reqs)" using assms by (rule distinct_requestKeys)
  from run_keys [OF cache_wf_empty this] show ?thesis by simp
qed

lemma oldest_evicted:
  assumes "distinct reqs" "CACHE_MAX_SIZE < length reqs"
  shows "map_get (run U [] (map request reqs)) (requestKey (hd reqs)) = None"
proof -
  from assms(2) obtain p ps where r: "reqs = p # ps" by (cases reqs) auto
  have d: "distinct (map requestKey reqs)" using assms(1) by (rule distinct_requestKeys)
  have "length reqs - CACHE_MAX_SIZE = Suc (length ps - CACHE_MAX_SIZE)"
    using assms(2) r by auto
  then have "drop (length reqs - CACHE_MAX_SIZE) (map requestKey reqs)
      = drop (length ps - CACHE_MAX_SIZE) (map requestKey ps)"
    unfolding r by simp
  then have "set (map fst (run U [] (map request reqs))) \<subseteq> set (map requestKey ps)"
    unfolding run_keys_empty [OF assms(1)] by (simp only: set_drop_subset)
  moreover have "requestKey p \<notin> set (map requestKey ps)" using d r by simp
  ultimately have "requestKey p \<notin> set (map fst (run U [] (map request reqs)))" by blast
  then show ?thesis unfolding r by (simp add: map_get_None)
qed

lemma empty_result:
  assumes "resolveHttpOnly opts = Inr v" "cacheKey s v = Inr key"
  shows "fst (isAbsoluteUrl U (JSString s) opts []) = Inr (classify U s (ToBoolean v))"
  by (rule fresh_result [OF assms]) (simp add: map_get_def)

lemma run_snoc:
  "run U c (calls @ [call]) = snd (isAbsoluteUrl U (fst call) (snd call) (run U c calls))"
  by (induction calls arbitrary: c) simp_all

lemma contractCalls_snoc:
  "contractCalls calls \<Longrightarrow> contractOptions (snd call) \<Longrightarrow> contractCalls (calls @ [call])"
  by (simp add: contractCalls_def)

subsection \<open>Strings of ASCII characters\<close>

lemma toLowercase_ascii:
  "list_all (\<lambda>c. c < 128) cps \<Longrightarrow> toLowercase U pre cps = map asciiLower cps"
  by (induction cps arbitrary: pre) (simp_all add: lowerCodePoint_def asciiLower_def)

lemma StringToCodePoints_ascii_id:
  "list_all (\<lambda>c. c < 128) s \<Longrightarrow> StringToCodePoints s = s"
  by (induction s rule: StringToCodePoints.induct) simp_all

lemma CodePointsToString_ascii:
  "list_all (\<lambda>c. c < 128) cps \<Longrightarrow> CodePointsToString cps = cps"
  by (induction cps) (simp_all add: CodePointsToString_def UTF16EncodeCodePoint_def)

lemma asciiLower_ascii: "c < 128 \<Longrightarrow> asciiLower c < 128"
  by (simp add: asciiLower_def)

lemma toLowerCase_ascii:
  assumes "list_all (\<lambda>c. c < 128) s"
  shows "toLowerCase U s = map asciiLower s"
proof -
  have "list_all (\<lambda>c. c < 128) (map asciiLower s)"
    using assms by (simp add: list_all_iff asciiLower_ascii)
  then show ?thesis
    using assms
    by (simp add: toLowerCase_def StringToCodePoints_ascii_id toLowercase_ascii
        CodePointsToString_ascii)
qed

lemma StringToCodePoints_ascii_prefix:
  "list_all (\<lambda>c. c < 128) p \<Longrightarrow> StringToCodePoints (p @ q) = p @ StringToCodePoints q"
proof (induction p)
  case Nil
  then show ?case by simp
next
  case (Cons x p)
  then show ?case by (cases "p @ q") simp_all
qed

lemma toLowercase_ascii_prefix:
  "list_all (\<lambda>c. c < 128) p \<Longrightarrow>
     toLowercase U pre (p @ cps) = map asciiLower p @ toLowercase U (pre @ p) cps"
  by (induction p arbitrary: pre) (simp_all add: lowerCodePoint_def asciiLower_def)

lemma toLowerCase_ascii_prefix:
  assumes "list_all (\<lambda>c. c < 128) p"
  shows "\<exists>X. toLowerCase U (p @ q) = map asciiLower p @ X"
proof -
  have "list_all (\<lambda>c. c < 128) (map asciiLower p)"
    using assms by (simp add: list_all_iff asciiLower_ascii)
  then have "CodePointsToString (map asciiLower p) = map asciiLower p"
    by (rule CodePointsToString_ascii)
  then show ?thesis
    using assms
    by (simp add: toLowerCase_def StringToCodePoints_ascii_prefix toLowercase_ascii_prefix
        CodePointsToString_append)
qed

lemma isSchemeChar_ascii: "isSchemeChar c \<Longrightarrow> c < 128 \<and> asciiLower c \<noteq> 58"
  by (auto simp: isSchemeChar_def isAsciiLetter_def asciiLower_def)

lemma takeWhile_until:
  "\<forall>c\<in>set xs. c \<noteq> k \<Longrightarrow> takeWhile (\<lambda>c. c \<noteq> k) (xs @ k # ys) = xs"
  by (induction xs) auto

lemma grammar_toLowerCase_token:
  assumes g: "matchesSchemeGrammar s"
    and t: "toLowerCase U (slice s 0 6) = t" "t = js ''http:'' \<or> t = js ''https:''"
  shows "takeWhile (\<lambda>c. c \<noteq> 58) t = map asciiLower (schemeToken s)
    \<and> length (schemeToken s) < 6"
proof -
  from g obtain scheme rest where h: "s = scheme @ 58 # rest" "scheme \<noteq> []"
    "isAsciiLetter (hd scheme)" "list_all isSchemeChar (tl scheme)"
    unfolding matchesSchemeGrammar_def by blast
  then obtain l tl' where sc: "scheme = l # tl'" by (cases scheme) auto
  have all: "list_all isSchemeChar scheme"
    using h(3,4) unfolding sc by (simp add: isSchemeChar_def)
  then have ascii: "list_all (\<lambda>c. c < 128) scheme"
    and no58: "\<forall>c\<in>set (map asciiLower scheme). c \<noteq> 58"
    and raw58: "\<forall>c\<in>set scheme. c \<noteq> 58"
    using isSchemeChar_ascii by (auto simp: list_all_iff asciiLower_colon)
  have tok: "schemeToken s = scheme"
    unfolding schemeToken_def h(1) by (rule takeWhile_until [OF raw58])
  let ?p = "take 6 (scheme @ [58])"
  have "s = (scheme @ [58]) @ rest" using h(1) by simp
  then have "take 6 s = ?p @ take (6 - length (scheme @ [58])) rest"
    by (simp only: take_append)
  then have "slice s 0 6 = ?p @ take (6 - length (scheme @ [58])) rest"
    by (simp add: slice_def)
  moreover have "list_all (\<lambda>c. c < 128) ?p"
    using ascii by (auto simp: list_all_iff dest: in_set_takeD)
  ultimately obtain X where X: "t = map asciiLower ?p @ X"
    using toLowerCase_ascii_prefix [of ?p U] t(1) by metis
  have has58: "58 \<in> set t" using t(2) by (auto simp: js_http js_https)
  show ?thesis
  proof (cases "length scheme < 6")
    case True
    then have "?p = scheme @ [58]" by simp
    then have "t = map asciiLower scheme @ 58 # X"
      using X by (simp add: asciiLower_fixed)
    then have "takeWhile (\<lambda>c. c \<noteq> 58) t = map asciiLower scheme"
      by (simp only: takeWhile_until [OF no58])
    with tok True show ?thesis by simp
  next
    case False
    then have p: "?p = take 6 scheme" by simp
    from False have "6 - length (scheme @ [58]) = 0" by simp
    then have "slice s 0 6 = take 6 scheme" unfolding slice_def h(1) using False by simp
    moreover have "list_all (\<lambda>c. c < 128) (take 6 scheme)"
      using ascii by (auto simp: list_all_iff dest: in_set_takeD)
    ultimately have "t = map asciiLower (take 6 scheme)"
      using t(1) by (simp add: toLowerCase_ascii)
    then have "set t \<subseteq> set (map asciiLower scheme)"
      by (auto dest: in_set_takeD)
    with has58 no58 show ?thesis by blast
  qed
qed

lemma grammar_mixed_case:
  assumes g: "matchesSchemeGrammar s"
    and t: "toLowerCase U (slice s 0 6) = js ''http:'' \<or> toLowerCase U (slice s 0 6) = js ''https:''"
  shows "equalsIgnoreCase (schemeToken s) (js ''http'') \<or> equalsIgnoreCase (schemeToken s) (js ''https'')"
proof -
  from t consider "toLowerCase U (slice s 0 6) = js ''http:''"
    | "toLowerCase U (slice s 0 6) = js ''https:''" by blast
  then show ?thesis
  proof cases
    case 1
    from grammar_toLowerCase_token [OF g 1]
    have "map asciiLower (schemeToken s) = [104, 116, 116, 112]"
      by (simp add: js_http)
    then show ?thesis by (simp add: equalsIgnoreCase_def js_http_token asciiLower_fixed)
  next
    case 2
    from grammar_toLowerCase_token [OF g 2]
    have "map asciiLower (schemeToken s) = [104, 116, 116, 112, 115]"
      by (simp add: js_https)
    then show ?thesis by (simp add: equalsIgnoreCase_def js_https_token asciiLower_fixed)
  qed
qed

lemma hasCommonHttpProtocol_grammar:
  assumes g: "matchesSchemeGrammar s" and h: "hasCommonHttpProtocol U s"
  shows "startsWithIgnoreCase (js ''http:'') s \<or> startsWithIgnoreCase (js ''https:'') s"
proof -
  let ?c = "codePointAt s"
  from h consider
      (lower5) "?c 0 = Some 104" "?c 1 = Some 116" "?c 2 = Some 116" "?c 3 = Some 112" "?c 4 = Some 58"
    | (upper5) "?c 0 = Some 72" "?c 1 = Some 84" "?c 2 = Some 84" "?c 3 = Some 80" "?c 4 = Some 58"
    | (lower6) "?c 0 = Some 104" "?c 1 = Some 116" "?c 2 = Some 116" "?c 3 = Some 112"
        "?c 4 = Some 115" "?c 5 = Some 58"
    | (upper6) "?c 0 = Some 72" "?c 1 = Some 84" "?c 2 = Some 84" "?c 3 = Some 80"
        "?c 4 = Some 83" "?c 5 = Some 58"
    | (mixed) "toLowerCase U (slice s 0 6) = js ''http:'' \<or> toLowerCase U (slice s 0 6) = js ''https:''"
    unfolding hasCommonHttpProtocol_cases by blast
  then show ?thesis
  proof cases
    case lower5
    then have "4 < length s" "s ! 0 = 104" "s ! 1 = 116" "s ! 2 = 116" "s ! 3 = 112" "s ! 4 = 58"
      by (simp_all add: codePointAt_small)
    then have "startsWithIgnoreCase (js ''http:'') s"
      by (intro startsWith_http_nth) (simp_all add: asciiLower_def)
    then show ?thesis ..
  next
    case upper5
    then have "4 < length s" "s ! 0 = 72" "s ! 1 = 84" "s ! 2 = 84" "s ! 3 = 80" "s ! 4 = 58"
      by (simp_all add: codePointAt_small)
    then have "startsWithIgnoreCase (js ''http:'') s"
      by (intro startsWith_http_nth) (simp_all add: asciiLower_def)
    then show ?thesis ..
  next
    case lower6
    then have "5 < length s" "s ! 0 = 104" "s ! 1 = 116" "s ! 2 = 116" "s ! 3 = 112"
      "s ! 4 = 115" "s ! 5 = 58"
      by (simp_all add: codePointAt_small)
    then have "startsWithIgnoreCase (js ''https:'') s"
      by (intro startsWith_https_nth) (simp_all add: asciiLower_def)
    then show ?thesis ..
  next
    case upper6
    then have "5 < length s" "s ! 0 = 72" "s ! 1 = 84" "s ! 2 = 84" "s ! 3 = 80"
      "s ! 4 = 83" "s ! 5 = 58"
      by (simp_all add: codePointAt_small)
    then have "startsWithIgnoreCase (js ''https:'') s"
      by (intro startsWith_https_nth) (simp_all add: asciiLower_def)
    then show ?thesis ..
  next
    case mixed
    from grammar_mixed_case [OF g mixed] show ?thesis
      by (simp add: http_token_iff [OF g] https_token_iff [OF g])
  qed
qed

lemma classify_httpOnly_grammar:
  assumes "matchesSchemeGrammar s"
  shows "classify U s True \<longleftrightarrow>
    startsWithIgnoreCase (js ''http:'') s \<or> startsWithIgnoreCase (js ''https:'') s"
proof
  assume "classify U s True"
  then show "startsWithIgnoreCase (js ''http:'') s \<or> startsWithIgnoreCase (js ''https:'') s"
    using hasCommonHttpProtocol_grammar [OF assms, of U]
    by (auto simp: classify_def HTTP_PROTOCOLS_REGEX_test split: if_splits)
next
  assume "startsWithIgnoreCase (js ''http:'') s \<or> startsWithIgnoreCase (js ''https:'') s"
  then show "classify U s True" by (rule classify_http_prefix)
qed

lemma full_miss:
  assumes "cache_wf c" "map_size c = CACHE_MAX_SIZE"
    "resolveHttpOnly opts = Inr v" "cacheKey s v = Inr key" "map_get c key = None"
  shows "isAbsoluteUrl U (JSString s) opts c =
    (Inr (classify U s (ToBoolean v)), tl c @ [(key, classify U s (ToBoolean v))])"
proof -
  have "snd (cacheAndReturn c key (classify U s (ToBoolean v)))
      = tl c @ [(key, classify U s (ToBoolean v))]"
    using miss_cache [OF assms(1,5)] assms(2) by simp
  moreover have "fst (cacheAndReturn c key (classify U s (ToBoolean v)))
      = Inr (classify U s (ToBoolean v))"
    by (simp add: cacheAndReturn_def)
  ultimately show ?thesis
    using assms(5) by (simp add: isAbsoluteUrl_string [OF assms(3,4)] prod_eq_iff)
qed

lemma run_size_distinct:
  assumes "distinct reqs" "CACHE_MAX_SIZE \<le> length reqs"
  shows "map_size (run U [] (map request reqs)) = CACHE_MAX_SIZE"
proof -
  have "length (map fst (run U [] (map request reqs))) = CACHE_MAX_SIZE"
    unfolding run_keys_empty [OF assms(1)] using assms(2) by simp
  then show ?thesis by (simp add: map_size_def)
qed

lemma grammar_first_letter: "matchesSchemeGrammar s \<Longrightarrow> s \<noteq> [] \<and> isAsciiLetter (hd s)"
  by (auto simp: matchesSchemeGrammar_def)

subsection \<open>Concrete strings and tables\<close>

lemma js_c_windows: "js ''c:/windows'' = [99, 58, 47, 119, 105, 110, 100, 111, 119, 115]"
  by (simp add: js_def)

lemma c_windows_not_platform: "\<not> isPlatformPath (js ''c:/windows'')"
  by (simp add: js_c_windows isPlatformPath_def)

lemma c_windows_grammar: "matchesSchemeGrammar (js ''c:/windows'')"
proof -
  have "js ''c:/windows'' = [99] @ 58 # [47, 119, 105, 110, 100, 111, 119, 115]
      \<and> [99] \<noteq> [] \<and> isAsciiLetter (hd [99]) \<and> list_all isSchemeChar (tl [99])"
    by (simp add: js_c_windows isAsciiLetter_def)
  then show ?thesis unfolding matchesSchemeGrammar_def by blast
qed

lemma c_windows_not_http:
  "\<not> startsWithIgnoreCase (js ''http:'') (js ''c:/windows'')"
  "\<not> startsWithIgnoreCase (js ''https:'') (js ''c:/windows'')"
  by (simp_all add: js_c_windows js_http js_https asciiLower_def)

lemma c_windows_no_fast_path: "\<not> hasCommonHttpProtocol U (js ''c:/windows'')"
proof -
  have "toLowerCase U (slice (js ''c:/windows'') 0 6) = [99, 58, 47, 119, 105, 110]"
    by (simp add: js_c_windows slice_def toLowerCase_ascii asciiLower_def)
  then show ?thesis
    unfolding hasCommonHttpProtocol_cases
    by (simp add: codePointAt_small js_c_windows js_http js_https)
qed

lemma c_windows_classify:
  "classify U (js ''c:/windows'') False" "\<not> classify U (js ''c:/windows'') True"
  using c_windows_not_platform c_windows_grammar c_windows_not_http c_windows_no_fast_path
  by (simp_all add: classify_def isWindowsPath_iff ABSOLUTE_URL_REGEX_test
      HTTP_PROTOCOLS_REGEX_test)

lemma sampleUnicode_lowercase: "lowercaseAvoidsHttp sampleUnicode"
  by (simp add: lowercaseAvoidsHttp_def sampleUnicode_def)

lemma js_drive_C: "isPlatformPath [67, 58, 92]"
  by (simp add: isPlatformPath_def isAsciiLetter_def)

lemma js_ftp: "js ''ftp://example.com'' =
    [102, 116, 112, 58, 47, 47, 101, 120, 97, 109, 112, 108, 101, 46, 99, 111, 109]"
  by (simp add: js_def)

lemma ftp_grammar: "matchesSchemeGrammar (js ''ftp://example.com'')"
proof -
  have "js ''ftp://example.com'' = [102, 116, 112] @ 58 # [47, 47, 101, 120, 97, 109, 112, 108, 101, 46, 99, 111, 109]
      \<and> [102, 116, 112] \<noteq> [] \<and> isAsciiLetter (hd [102, 116, 112])
      \<and> list_all isSchemeChar (tl [102, 116, 112])"
    by (simp add: js_ftp isAsciiLetter_def isSchemeChar_def)
  then show ?thesis unfolding matchesSchemeGrammar_def by blast
qed

lemma ftp_not_platform: "\<not> isPlatformPath (js ''ftp://example.com'')"
  by (simp add: js_ftp isPlatformPath_def)

lemma js_path: "js ''/path/to/file'' = [47, 112, 97, 116, 104, 47, 116, 111, 47, 102, 105, 108, 101]"
  by (simp add: js_def)

lemma ftp_token: "schemeToken (js ''ftp://example.com'') = [102, 116, 112]"
  by (simp add: schemeToken_def js_ftp)

lemma js_mixed_https: "js ''hTtPs://x'' = [104, 84, 116, 80, 115, 58, 47, 47, 120]"
  by (simp add: js_def)

lemma mixed_https_grammar: "matchesSchemeGrammar (js ''hTtPs://x'')"
proof -
  have "js ''hTtPs://x'' = [104, 84, 116, 80, 115] @ 58 # [47, 47, 120]
      \<and> [104, 84, 116, 80, 115] \<noteq> [] \<and> isAsciiLetter (hd [104, 84, 116, 80, 115])
      \<and> list_all isSchemeChar (tl [104, 84, 116, 80, 115])"
    by (simp add: js_mixed_https isAsciiLetter_def isSchemeChar_def)
  then show ?thesis unfolding matchesSchemeGrammar_def by blast
qed

lemma mixed_https_token: "schemeToken (js ''hTtPs://x'') = [104, 84, 116, 80, 115]"
  by (simp add: schemeToken_def js_mixed_https)

lemma manyRequests_distinct: "distinct manyRequests"
  unfolding manyRequests_def by (simp add: distinct_map inj_on_def)

lemma manyRequests_length: "length manyRequests = 1001"
  by (simp add: manyRequests_def)

lemma manyRequests_hd: "hd manyRequests = ([], True)"
  by (simp add: manyRequests_def hd_map)

lemma js_mixed_http: "js ''hTtP://example.com'' =
    [104, 84, 116, 80, 58, 47, 47, 101, 120, 97, 109, 112, 108, 101, 46, 99, 111, 109]"
  by (simp add: js_def)

lemma mixed_http_prefix: "startsWithIgnoreCase (js ''http:'') (js ''hTtP://example.com'')"
  by (simp add: js_mixed_http js_http asciiLower_def)

lemma mixed_http_not_platform: "\<not> isPlatformPath (js ''hTtP://example.com'')"
  by (simp add: js_mixed_http isPlatformPath_def)

lemma mixed_http_no_fast_path: "\<not> hasCommonHttpProtocol U (js ''hTtP://example.com'')"
proof -
  have "toLowerCase U (slice (js ''hTtP://example.com'') 0 6) = [104, 116, 116, 112, 58, 47]"
    by (simp add: js_mixed_http slice_def toLowerCase_ascii asciiLower_def)
  then show ?thesis
    unfolding hasCommonHttpProtocol_cases
    by (simp add: codePointAt_small js_mixed_http js_http js_https)
qed

lemma js_a_colon: "js ''a:'' = [97, 58]"
  by (simp add: js_def)

lemma a_colon_anyScheme: "classify U (js ''a:'') False"
proof -
  have "js ''a:'' = [97] @ 58 # [] \<and> [97] \<noteq> [] \<and> isAsciiLetter (hd [97])
      \<and> list_all isSchemeChar (tl [97])"
    by (simp add: js_a_colon isAsciiLetter_def)
  then have "matchesSchemeGrammar (js ''a:'')" unfolding matchesSchemeGrammar_def by blast
  moreover have "\<not> isPlatformPath (js ''a:'')" by (simp add: js_a_colon isPlatformPath_def)
  ultimately show ?thesis by (simp add: classify_anyScheme)
qed

lemma two_calls_keys:
  "map fst (run U [] (map request [(js ''a:'', False), (js ''b'', True)]))
     = [booleanKey (js ''a:'') False, booleanKey (js ''b'') True]"
proof -
  have d: "distinct [(js ''a:'', False), (js ''b'', True)]" by simp
  have r: "drop (length [(js ''a:'', False), (js ''b'', True)] - CACHE_MAX_SIZE)
      (map requestKey [(js ''a:'', False), (js ''b'', True)])
      = [booleanKey (js ''a:'') False, booleanKey (js ''b'') True]"
    by (simp add: requestKey_def CACHE_MAX_SIZE_def)
  show ?thesis by (simp only: run_keys_empty [OF d] r)
qed

lemma adverse_toLowerCase:
  "toLowerCase adverseUnicode (slice [200, 201, 201, 201, 201] 0 6) = js ''http:''"
  by (simp add: slice_def toLowerCase_def lowerCodePoint_def adverseUnicode_def
      CodePointsToString_def UTF16EncodeCodePoint_def js_http)

lemma adverse_fast_path: "hasCommonHttpProtocol adverseUnicode [200, 201, 201, 201, 201]"
  unfolding hasCommonHttpProtocol_cases using adverse_toLowerCase by blast

text \<open>
  The assumption on the table is needed: with a table that maps a code point to
  \<^verbatim>\<open>http:\<close> and another to nothing, the fast path accepts a string that the two
  patterns reject.
\<close>

lemma lowercase_assumption_needed:
  "\<not> lowercaseAvoidsHttp adverseUnicode
   \<and> fst (isAbsoluteUrl adverseUnicode (JSString [200, 201, 201, 201, 201]) OptionsUndefined [])
       = Inr True
   \<and> \<not> isAbsoluteUrl_noFastPath adverseUnicode [200, 201, 201, 201, 201] True"
proof -
  have 1: "\<not> lowercaseAvoidsHttp adverseUnicode"
    by (auto simp: lowercaseAvoidsHttp_def adverseUnicode_def intro: exI [of _ 200])
  have np: "\<not> isPlatformPath [200, 201, 201, 201, 201]"
    by (simp add: isPlatformPath_def)
  have "\<not> matchesSchemeGrammar [200, 201, 201, 201, 201]"
    using grammar_first_letter [of "[200, 201, 201, 201, 201]"] by (auto simp: isAsciiLetter_def)
  then have 3: "\<not> isAbsoluteUrl_noFastPath adverseUnicode [200, 201, 201, 201, 201] True"
    by (simp add: isAbsoluteUrl_noFastPath_def ABSOLUTE_URL_REGEX_test)
  have "classify adverseUnicode [200, 201, 201, 201, 201] True"
    using np adverse_fast_path by (simp add: classify_def isWindowsPath_iff)
  then have 2: "fst (isAbsoluteUrl adverseUnicode (JSString [200, 201, 201, 201, 201])
      OptionsUndefined []) = Inr True"
    using empty_result [OF resolve_omitted cacheKey_boolean, of adverseUnicode] by simp
  from 1 2 3 show ?thesis by blast
qed

lemma js_ftp_x: "js ''ftp://x'' = [102, 116, 112, 58, 47, 47, 120]"
  by (simp add: js_def)

lemma ftp_x_grammar: "matchesSchemeGrammar (js ''ftp://x'')"
proof -
  have "js ''ftp://x'' = [102, 116, 112] @ 58 # [47, 47, 120]
      \<and> [102, 116, 112] \<noteq> [] \<and> isAsciiLetter (hd [102, 116, 112])
      \<and> list_all isSchemeChar (tl [102, 116, 112])"
    by (simp add: js_ftp_x isAsciiLetter_def isSchemeChar_def)
  then show ?thesis unfolding matchesSchemeGrammar_def by blast
qed

lemma ftp_x_classify: "classify U (js ''ftp://x'') False" "\<not> classify U (js ''ftp://x'') True"
proof -
  have "\<not> isPlatformPath (js ''ftp://x'')" by (simp add: js_ftp_x isPlatformPath_def)
  then show "classify U (js ''ftp://x'') False"
    using ftp_x_grammar by (simp add: classify_anyScheme)
  have "\<not> (startsWithIgnoreCase (js ''http:'') (js ''ftp://x'')
      \<or> startsWithIgnoreCase (js ''https:'') (js ''ftp://x''))"
    by (simp add: js_ftp_x js_http js_https asciiLower_def)
  then show "\<not> classify U (js ''ftp://x'') True"
    by (simp add: classify_httpOnly_grammar [OF ftp_x_grammar])
qed

lemma string_false_key:
  "cacheKey s (JSString (js ''false'')) = Inr (booleanKey s False)"
  by (simp add: cacheKey_def booleanKey_def)

lemma poisoned_cache:
  "run U [] [(JSString (js ''ftp://x''), OptionsObject (JSString (js ''false'')))]
     = [(booleanKey (js ''ftp://x'') False, False)]"
proof -
  have r: "resolveHttpOnly (OptionsObject (JSString (js ''false''))) = Inr (JSString (js ''false''))"
    by (simp add: resolveHttpOnly_def)
  have t: "ToBoolean (JSString (js ''false''))" by (simp add: js_def)
  have "isAbsoluteUrl U (JSString (js ''ftp://x'')) (OptionsObject (JSString (js ''false''))) []
      = cacheAndReturn [] (booleanKey (js ''ftp://x'') False) (classify U (js ''ftp://x'') True)"
    using t by (simp add: isAbsoluteUrl_string [OF r string_false_key] map_get_def)
  then show ?thesis
    using ftp_x_classify(2) [of U]
    by (simp add: cacheAndReturn_def map_size_def CACHE_MAX_SIZE_def)
qed

subsection \<open>Calls on a string\<close>

lemma one_request_contract: "contractCalls (map request [p])"
  by (rule contractCalls_requests)

lemma string_result:
  "(\<exists>b. fst (isAbsoluteUrl U (JSString s) opts c) = Inr b)
     \<longleftrightarrow> (\<exists>v t. resolveHttpOnly opts = Inr v \<and> ToString v = Inr t)"
proof
  assume "\<exists>b. fst (isAbsoluteUrl U (JSString s) opts c) = Inr b"
  then obtain b where b: "fst (isAbsoluteUrl U (JSString s) opts c) = Inr b" ..
  show "\<exists>v t. resolveHttpOnly opts = Inr v \<and> ToString v = Inr t"
  proof (cases rule: isAbsoluteUrl_cases [of U s opts c])
    case (throws e)
    with b show ?thesis by simp
  next
    case (hit v key stored)
    then show ?thesis by (auto simp: cacheKey_def split: sum.splits)
  next
    case (miss v key)
    then show ?thesis by (auto simp: cacheKey_def split: sum.splits)
  qed
next
  assume "\<exists>v t. resolveHttpOnly opts = Inr v \<and> ToString v = Inr t"
  then obtain v t where v: "resolveHttpOnly opts = Inr v" and t: "ToString v = Inr t" by blast
  from t have k: "cacheKey s v = Inr (s @ js ''|'' @ t)" by (simp add: cacheKey_def)
  show "\<exists>b. fst (isAbsoluteUrl U (JSString s) opts c) = Inr b"
    by (simp add: isAbsoluteUrl_string [OF v k] cacheAndReturn_def split: option.splits)
qed

lemma string_error:
  "fst (isAbsoluteUrl U (JSString s) opts c) \<noteq> Inl (TypeError msg)"
proof (cases rule: isAbsoluteUrl_cases [of U s opts c])
  case (throws e)
  from throws(2) have "e \<noteq> TypeError msg"
    by (auto simp: resolveHttpOnly_def cacheKey_def split: options.splits sum.splits option.splits if_splits
        elim!: ToString.elims)
  with throws(1) show ?thesis by simp
next
  case (hit v key stored)
  then show ?thesis by simp
next
  case (miss v key)
  then show ?thesis by (simp add: cacheAndReturn_def)
qed

subsection \<open>Keys of platform paths\<close>

lemma js_bar: "js ''|'' = [124]"
  by (simp add: js_def)

lemma platform_key: "isPlatformPath (s @ 124 # t) \<longleftrightarrow> isPlatformPath s"
proof
  assume "isPlatformPath (s @ 124 # t)"
  then obtain l rest where e: "s @ 124 # t = l # 58 # 92 # rest" and l: "isAsciiLetter l"
    by (auto simp: isPlatformPath_def)
  show "isPlatformPath s"
  proof (cases s)
    case Nil
    with e l show ?thesis by (simp add: isAsciiLetter_def)
  next
    case (Cons a s1)
    note s = this
    show ?thesis
    proof (cases s1)
      case Nil
      with e s show ?thesis by simp
    next
      case (Cons b s2)
      note s1 = this
      show ?thesis
      proof (cases s2)
        case Nil
        with e s s1 show ?thesis by simp
      next
        case (Cons d s3)
        with e s s1 l show ?thesis by (simp add: isPlatformPath_def)
      qed
    qed
  qed
next
  assume "isPlatformPath s"
  then show "isPlatformPath (s @ 124 # t)" by (auto simp: isPlatformPath_def)
qed

lemma cacheKey_platform:
  assumes "cacheKey s v = Inr key"
  shows "isPlatformPath key \<longleftrightarrow> isPlatformPath s"
proof -
  from assms obtain t where "key = s @ 124 # t"
    by (auto simp: cacheKey_def js_bar split: sum.splits)
  then show ?thesis by (simp add: platform_key)
qed

lemma platform_step:
  assumes "\<forall>p\<in>set c. isPlatformPath (fst p) \<longrightarrow> \<not> snd p"
  shows "\<forall>p\<in>set (snd (isAbsoluteUrl U url opts c)). isPlatformPath (fst p) \<longrightarrow> \<not> snd p"
proof (cases "typeof url = js ''string''")
  case False
  then show ?thesis using assms by (simp add: isAbsoluteUrl_not_string)
next
  case True
  then obtain s where u: "url = JSString s" by (auto simp: typeof_string)
  show ?thesis
  proof (cases rule: isAbsoluteUrl_cases [of U s opts c])
    case (throws e)
    then show ?thesis using assms by (simp add: u)
  next
    case (hit v key stored)
    then show ?thesis using assms by (simp add: u)
  next
    case (miss v key)
    have sub: "set (if CACHE_MAX_SIZE \<le> map_size c then evictOldestCacheEntry c else c) \<subseteq> set c"
      using evict_subset [of c] by simp
    have new: "isPlatformPath key \<longrightarrow> \<not> classify U s (ToBoolean v)"
      by (simp add: cacheKey_platform [OF miss(2)] classify_def isWindowsPath_iff)
    have "snd (isAbsoluteUrl U url opts c) =
        (if CACHE_MAX_SIZE \<le> map_size c then evictOldestCacheEntry c else c)
          @ [(key, classify U s (ToBoolean v))]"
      by (simp add: u miss(4) cacheAndReturn_miss [OF miss(3)])
    then show ?thesis using assms sub new by auto
  qed
qed

lemma platform_run:
  "\<forall>p\<in>set c. isPlatformPath (fst p) \<longrightarrow> \<not> snd p \<Longrightarrow>
   \<forall>p\<in>set (run U c calls). isPlatformPath (fst p) \<longrightarrow> \<not> snd p"
proof (induction calls arbitrary: c)
  case Nil
  then show ?case by simp
next
  case (Cons call calls)
  from Cons.IH [OF platform_step [OF Cons.prems]] show ?case by simp
qed

lemma platform_result:
  assumes "isPlatformPath s" "resolveHttpOnly opts = Inr v" "ToString v = Inr t"
  shows "fst (isAbsoluteUrl U (JSString s) opts (run U [] calls)) = Inr False"
proof -
  from assms(3) have k: "cacheKey s v = Inr (s @ js ''|'' @ t)" by (simp add: cacheKey_def)
  have inv: "\<forall>p\<in>set (run U [] calls). isPlatformPath (fst p) \<longrightarrow> \<not> snd p"
    by (rule platform_run) simp
  have p: "isPlatformPath (s @ js ''|'' @ t)"
    using assms(1) by (simp add: cacheKey_platform [OF k])
  show ?thesis
  proof (cases "map_get (run U [] calls) (s @ js ''|'' @ t)")
    case None
    from fresh_result [OF assms(2) k None, of U] assms(1)
    show ?thesis by (simp add: classify_def isWindowsPath_iff)
  next
    case (Some stored)
    then have "(s @ js ''|'' @ t, stored) \<in> set (run U [] calls)"
      by (simp add: map_get_def map_of_SomeD)
    with inv p have "\<not> stored" by force
    with Some show ?thesis by (simp add: isAbsoluteUrl_string [OF assms(2) k])
  qed
qed

section \<open>The claims\<close>

text \<open>
  C1, as stated: under \<^verbatim>\<open>httpOnly: false\<close> a string returns true if it matches the scheme
  grammar and false if it does not. The string \<^verbatim>\<open>C:\\<close> (code units 67, 58, 92) matches
  the grammar, with the scheme \<^verbatim>\<open>C\<close>, and the call returns false.
\<close>

theorem C1_counterexample:
  "matchesSchemeGrammar [67, 58, 92]
   \<and> fst (isAbsoluteUrl sampleUnicode (JSString [67, 58, 92]) (OptionsObject (JSBoolean False)) [])
       = Inr False"
  using js_drive_C isPlatformPath_grammar [OF js_drive_C]
    empty_result [OF resolve_boolean cacheKey_boolean, of sampleUnicode "[67, 58, 92]" False]
  by (simp add: classify_anyScheme)

text \<open>
  C1, amended: under \<^verbatim>\<open>httpOnly: false\<close> a string returns true exactly when it matches
  the scheme grammar and is not a platform path (its first three characters are not an
  ASCII letter, a colon and a backslash). This holds whenever the Map has no entry under
  the key of the call, so on the empty Map, and after any calls made with the options of
  the contract (omitted, or with \<^verbatim>\<open>httpOnly\<close> absent or a boolean).
\<close>

theorem C1_anyScheme_grammar:
  "(\<not> map_has c (booleanKey s False) \<longrightarrow>
      fst (isAbsoluteUrl U (JSString s) (OptionsObject (JSBoolean False)) c)
        = Inr (matchesSchemeGrammar s \<and> \<not> isPlatformPath s))
   \<and> (contractCalls calls \<longrightarrow>
      fst (isAbsoluteUrl U (JSString s) (OptionsObject (JSBoolean False)) (run U [] calls))
        = Inr (matchesSchemeGrammar s \<and> \<not> isPlatformPath s))"
proof (intro conjI impI)
  assume "\<not> map_has c (booleanKey s False)"
  then have "map_get c (booleanKey s False) = None" by (simp add: map_has_def map_get_def)
  from fresh_result [OF resolve_boolean cacheKey_boolean this, of U]
  show "fst (isAbsoluteUrl U (JSString s) (OptionsObject (JSBoolean False)) c)
        = Inr (matchesSchemeGrammar s \<and> \<not> isPlatformPath s)"
    by (simp add: classify_anyScheme)
next
  assume "contractCalls calls"
  from run_result [OF this resolve_boolean, of U s False]
  show "fst (isAbsoluteUrl U (JSString s) (OptionsObject (JSBoolean False)) (run U [] calls))
        = Inr (matchesSchemeGrammar s \<and> \<not> isPlatformPath s)"
    by (simp add: classify_anyScheme)
qed

theorem C1_anyScheme_grammar_witness:
  "\<not> map_has [] (booleanKey (js ''ftp://example.com'') False)
   \<and> fst (isAbsoluteUrl sampleUnicode (JSString (js ''ftp://example.com''))
          (OptionsObject (JSBoolean False)) []) = Inr True
   \<and> contractCalls (map request [(js ''ftp://example.com'', True)])
   \<and> fst (isAbsoluteUrl sampleUnicode (JSString (js ''ftp://example.com''))
          (OptionsObject (JSBoolean False))
          (run sampleUnicode [] (map request [(js ''ftp://example.com'', True)]))) = Inr True
   \<and> fst (isAbsoluteUrl sampleUnicode (JSString (js ''/path/to/file''))
          (OptionsObject (JSBoolean False))
          (run sampleUnicode [] (map request [(js ''ftp://example.com'', True)]))) = Inr False"
proof -
  have n: "\<not> matchesSchemeGrammar (js ''/path/to/file'')"
    using grammar_first_letter [of "js ''/path/to/file''"]
    by (auto simp: js_path isAsciiLetter_def)
  have e: "\<not> map_has [] (booleanKey (js ''ftp://example.com'') False)"
    by (simp add: map_has_def)
  note c = one_request_contract [of "(js ''ftp://example.com'', True)"]
  note 1 = C1_anyScheme_grammar [of "[]" "js ''ftp://example.com''" sampleUnicode
      "map request [(js ''ftp://example.com'', True)]"]
  note 2 = C1_anyScheme_grammar [of "[]" "js ''/path/to/file''" sampleUnicode
      "map request [(js ''ftp://example.com'', True)]"]
  from 1 e c ftp_grammar ftp_not_platform
  have a: "fst (isAbsoluteUrl sampleUnicode (JSString (js ''ftp://example.com''))
          (OptionsObject (JSBoolean False)) []) = Inr True"
    "fst (isAbsoluteUrl sampleUnicode (JSString (js ''ftp://example.com''))
          (OptionsObject (JSBoolean False))
          (run sampleUnicode [] (map request [(js ''ftp://example.com'', True)]))) = Inr True"
    by simp_all
  from 2 c n
  have b: "fst (isAbsoluteUrl sampleUnicode (JSString (js ''/path/to/file''))
          (OptionsObject (JSBoolean False))
          (run sampleUnicode [] (map request [(js ''ftp://example.com'', True)]))) = Inr False"
    by simp
  from e a c b show ?thesis by blast
qed

text \<open>
  C2: for a string that matches the scheme grammar, under the HttpOnly policy
  (\<^verbatim>\<open>httpOnly: true\<close>, or omitted) and after any calls made with the options of the
  contract, \<open>isAbsoluteUrl\<close> returns true exactly when the scheme token, the text before
  the first colon, is \<^verbatim>\<open>http\<close> or \<^verbatim>\<open>https\<close> in any casing.
\<close>

theorem C2_httpOnly_scheme_token:
  assumes "matchesSchemeGrammar s" "resolveHttpOnly opts = Inr (JSBoolean True)"
    "contractCalls calls"
  shows "fst (isAbsoluteUrl U (JSString s) opts (run U [] calls))
     = Inr (equalsIgnoreCase (schemeToken s) (js ''http'')
            \<or> equalsIgnoreCase (schemeToken s) (js ''https''))"
  using assms(1) run_result [OF assms(3,2), of U s]
  by (simp add: classify_httpOnly_grammar http_token_iff https_token_iff)

theorem C2_httpOnly_scheme_token_witness:
  "matchesSchemeGrammar (js ''ftp://example.com'')
   \<and> resolveHttpOnly OptionsUndefined = Inr (JSBoolean True)
   \<and> resolveHttpOnly (OptionsObject JSUndefined) = Inr (JSBoolean True)
   \<and> contractCalls (map request [(js ''ftp://example.com'', False)])
   \<and> fst (isAbsoluteUrl sampleUnicode (JSString (js ''ftp://example.com'')) OptionsUndefined
          (run sampleUnicode [] (map request [(js ''ftp://example.com'', False)]))) = Inr False
   \<and> matchesSchemeGrammar (js ''hTtPs://x'')
   \<and> fst (isAbsoluteUrl sampleUnicode (JSString (js ''hTtPs://x'')) (OptionsObject JSUndefined)
          (run sampleUnicode [] (map request [(js ''ftp://example.com'', False)]))) = Inr True"
proof -
  have r: "resolveHttpOnly OptionsUndefined = Inr (JSBoolean True)"
    "resolveHttpOnly (OptionsObject JSUndefined) = Inr (JSBoolean True)"
    by (simp_all add: resolveHttpOnly_def)
  note c = one_request_contract [of "(js ''ftp://example.com'', False)"]
  have 1: "\<not> (equalsIgnoreCase (schemeToken (js ''ftp://example.com'')) (js ''http'')
      \<or> equalsIgnoreCase (schemeToken (js ''ftp://example.com'')) (js ''https''))"
    by (simp add: ftp_token equalsIgnoreCase_def js_http_token js_https_token)
  have 2: "equalsIgnoreCase (schemeToken (js ''hTtPs://x'')) (js ''https'')"
    by (simp add: mixed_https_token equalsIgnoreCase_def js_https_token asciiLower_def)
  from C2_httpOnly_scheme_token [OF ftp_grammar r(1) c, of sampleUnicode] 1
  have a: "fst (isAbsoluteUrl sampleUnicode (JSString (js ''ftp://example.com'')) OptionsUndefined
          (run sampleUnicode [] (map request [(js ''ftp://example.com'', False)]))) = Inr False"
    by simp
  from C2_httpOnly_scheme_token [OF mixed_https_grammar r(2) c, of sampleUnicode] 2
  have b: "fst (isAbsoluteUrl sampleUnicode (JSString (js ''hTtPs://x'')) (OptionsObject JSUndefined)
          (run sampleUnicode [] (map request [(js ''ftp://example.com'', False)]))) = Inr True"
    by simp
  from ftp_grammar r c a mixed_https_grammar b show ?thesis by blast
qed

text \<open>
  C3: a string whose first three characters are an ASCII letter, a colon and a backslash
  returns false under every policy, although it matches the scheme grammar and the
  scheme-prefix pattern of the source. This holds for every options argument with which
  the call computes a key (so with \<^verbatim>\<open>httpOnly\<close> true, false or absent, and with the
  argument omitted) and after any calls whatever, with any arguments.
\<close>

theorem C3_platform_path_false:
  assumes "isPlatformPath s" "resolveHttpOnly opts = Inr v" "ToString v = Inr t"
  shows "fst (isAbsoluteUrl U (JSString s) opts (run U [] calls)) = Inr False
    \<and> matchesSchemeGrammar s \<and> regex_test U False ABSOLUTE_URL_REGEX s"
  using platform_result [OF assms, of U calls] isPlatformPath_grammar [OF assms(1)]
  by (simp add: ABSOLUTE_URL_REGEX_test)

theorem C3_platform_path_false_witness:
  "isPlatformPath (js ''C:'' @ [92] @ js ''windows'' @ [92] @ js ''path'')
   \<and> resolveHttpOnly (OptionsObject (JSBoolean True)) = Inr (JSBoolean True)
   \<and> ToString (JSBoolean True) = Inr (js ''true'')
   \<and> resolveHttpOnly (OptionsObject (JSBoolean False)) = Inr (JSBoolean False)
   \<and> ToString (JSBoolean False) = Inr (js ''false'')
   \<and> resolveHttpOnly OptionsUndefined = Inr (JSBoolean True)
   \<and> fst (isAbsoluteUrl sampleUnicode
          (JSString (js ''C:'' @ [92] @ js ''windows'' @ [92] @ js ''path''))
          (OptionsObject (JSBoolean True))
          (run sampleUnicode [] [(JSString (js ''ftp://x''), OptionsObject (JSString (js ''false'')))]))
       = Inr False
   \<and> fst (isAbsoluteUrl sampleUnicode
          (JSString (js ''C:'' @ [92] @ js ''windows'' @ [92] @ js ''path''))
          (OptionsObject (JSBoolean False))
          (run sampleUnicode [] [(JSString (js ''ftp://x''), OptionsObject (JSString (js ''false'')))]))
       = Inr False
   \<and> fst (isAbsoluteUrl sampleUnicode
          (JSString (js ''C:'' @ [92] @ js ''windows'' @ [92] @ js ''path''))
          OptionsUndefined
          (run sampleUnicode [] [(JSString (js ''ftp://x''), OptionsObject (JSString (js ''false'')))]))
       = Inr False"
proof -
  have p: "isPlatformPath (js ''C:'' @ [92] @ js ''windows'' @ [92] @ js ''path'')"
    by (simp add: js_def isPlatformPath_def isAsciiLetter_def)
  have t: "ToString (JSBoolean True) = Inr (js ''true'')"
    "ToString (JSBoolean False) = Inr (js ''false'')" by simp_all
  note rt = resolve_boolean [of True]
  note rf = resolve_boolean [of False]
  note ro = resolve_omitted
  from p rt rf ro t
    C3_platform_path_false [OF p rt t(1), of sampleUnicode
      "[(JSString (js ''ftp://x''), OptionsObject (JSString (js ''false'')))]"]
    C3_platform_path_false [OF p rf t(2), of sampleUnicode
      "[(JSString (js ''ftp://x''), OptionsObject (JSString (js ''false'')))]"]
    C3_platform_path_false [OF p ro t(1), of sampleUnicode
      "[(JSString (js ''ftp://x''), OptionsObject (JSString (js ''false'')))]"]
  show ?thesis by blast
qed

text \<open>
  C4, as stated: after any sequence of calls the call returns what a fresh computation
  returns. After \<^verbatim>\<open>isAbsoluteUrl('ftp://x', {httpOnly: 'false'})\<close>, whose \<^verbatim>\<open>httpOnly\<close>
  is a string that is true as a condition and is written \<^verbatim>\<open>false\<close> in the key, the call
  \<^verbatim>\<open>isAbsoluteUrl('ftp://x', {httpOnly: false})\<close> returns false from the Map; on the
  empty Map it returns true.
\<close>

theorem C4_counterexample:
  "fst (isAbsoluteUrl sampleUnicode (JSString (js ''ftp://x'')) (OptionsObject (JSBoolean False))
         (run sampleUnicode [] [(JSString (js ''ftp://x''), OptionsObject (JSString (js ''false'')))]))
     = Inr False
   \<and> fst (isAbsoluteUrl sampleUnicode (JSString (js ''ftp://x'')) (OptionsObject (JSBoolean False)) [])
     = Inr True"
proof -
  have "fst (isAbsoluteUrl sampleUnicode (JSString (js ''ftp://x'')) (OptionsObject (JSBoolean False))
         [(booleanKey (js ''ftp://x'') False, False)]) = Inr False"
    by (simp add: isAbsoluteUrl_boolean [OF resolve_boolean] map_get_def)
  moreover have "fst (isAbsoluteUrl sampleUnicode (JSString (js ''ftp://x''))
      (OptionsObject (JSBoolean False)) []) = Inr True"
    using empty_result [OF resolve_boolean cacheKey_boolean, of sampleUnicode "js ''ftp://x''" False]
      ftp_x_classify(1) [of sampleUnicode] by simp
  ultimately show ?thesis by (simp only: poisoned_cache)
qed

text \<open>
  C4, amended: for every string and boolean, after any sequence of calls made with the
  options of the contract (omitted, or with \<^verbatim>\<open>httpOnly\<close> absent or a boolean) the call
  returns what it returns on the empty Map, and calling again returns the same; two calls
  with boolean \<^verbatim>\<open>httpOnly\<close> share a key of the Map only when they have the same string
  and the same \<^verbatim>\<open>httpOnly\<close>.
\<close>

theorem C4_cache_transparent:
  assumes "contractCalls calls"
  shows "fst (isAbsoluteUrl U (JSString s) (OptionsObject (JSBoolean h)) (run U [] calls))
     = fst (isAbsoluteUrl U (JSString s) (OptionsObject (JSBoolean h)) [])
   \<and> fst (isAbsoluteUrl U (JSString s) (OptionsObject (JSBoolean h))
          (snd (isAbsoluteUrl U (JSString s) (OptionsObject (JSBoolean h)) (run U [] calls))))
     = fst (isAbsoluteUrl U (JSString s) (OptionsObject (JSBoolean h)) (run U [] calls))
   \<and> (\<exists>b. fst (isAbsoluteUrl U (JSString s) (OptionsObject (JSBoolean h)) (run U [] calls)) = Inr b)
   \<and> ((cacheKey s (JSBoolean h) = cacheKey s' (JSBoolean h')) = (s = s' \<and> h = h'))"
proof -
  let ?call = "(JSString s, OptionsObject (JSBoolean h))"
  have again: "snd (isAbsoluteUrl U (JSString s) (OptionsObject (JSBoolean h)) (run U [] calls))
      = run U [] (calls @ [?call])"
    by (simp add: run_snoc)
  have c2: "contractCalls (calls @ [?call])" using assms by (simp add: contractCalls_snoc)
  have 1: "fst (isAbsoluteUrl U (JSString s) (OptionsObject (JSBoolean h)) (run U [] calls))
      = Inr (classify U s h)"
    by (rule run_result [OF assms resolve_boolean])
  have 2: "fst (isAbsoluteUrl U (JSString s) (OptionsObject (JSBoolean h)) (run U [] (calls @ [?call])))
      = Inr (classify U s h)"
    by (rule run_result [OF c2 resolve_boolean])
  have 3: "fst (isAbsoluteUrl U (JSString s) (OptionsObject (JSBoolean h)) []) = Inr (classify U s h)"
    using empty_result [OF resolve_boolean cacheKey_boolean, of U s h] by simp
  show ?thesis unfolding again 1 2 3 by (simp add: cacheKey_inject)
qed

theorem C4_cache_transparent_witness:
  "contractCalls [(JSString (js ''ftp://x''), OptionsUndefined)]
   \<and> fst (isAbsoluteUrl sampleUnicode (JSString (js ''ftp://x'')) (OptionsObject (JSBoolean False))
          (run sampleUnicode [] [(JSString (js ''ftp://x''), OptionsUndefined)]))
     = fst (isAbsoluteUrl sampleUnicode (JSString (js ''ftp://x'')) (OptionsObject (JSBoolean False)) [])
   \<and> fst (isAbsoluteUrl sampleUnicode (JSString (js ''ftp://x'')) (OptionsObject (JSBoolean False)) [])
     = Inr True"
proof -
  have c: "contractCalls [(JSString (js ''ftp://x''), OptionsUndefined)]"
    by (simp add: contractCalls_def)
  have "fst (isAbsoluteUrl sampleUnicode (JSString (js ''ftp://x'')) (OptionsObject (JSBoolean False)) [])
     = Inr True"
    using empty_result [OF resolve_boolean cacheKey_boolean, of sampleUnicode "js ''ftp://x''" False]
      ftp_x_classify(1) [of sampleUnicode] by simp
  with C4_cache_transparent [OF c, of sampleUnicode "js ''ftp://x''" False] c
  show ?thesis by (simp only:)
qed

text \<open>
  C5: the Map never holds more than 1000 entries. After any calls from the empty Map, with
  any arguments, the size is at most 1000, and every call preserves that bound; a miss on
  a full Map removes the first (oldest) entry and appends the new one; after more than 1000
  calls with distinct (string, \<^verbatim>\<open>httpOnly\<close>) pairs the Map is full and the key of the
  first call is no longer in it.
\<close>

theorem C5_cache_bound:
  "map_size (run U [] calls) \<le> CACHE_MAX_SIZE
   \<and> (map_size c \<le> CACHE_MAX_SIZE \<longrightarrow>
        map_size (snd (isAbsoluteUrl U url opts c)) \<le> CACHE_MAX_SIZE)
   \<and> (map_size (run U [] calls) = CACHE_MAX_SIZE
        \<and> resolveHttpOnly opts = Inr v \<and> cacheKey s v = Inr key
        \<and> \<not> map_has (run U [] calls) key \<longrightarrow>
        (\<exists>b. isAbsoluteUrl U (JSString s) opts (run U [] calls) =
           (Inr b, tl (run U [] calls) @ [(key, b)])))
   \<and> (distinct reqs \<and> CACHE_MAX_SIZE < length reqs \<longrightarrow>
        map_size (run U [] (map request reqs)) = CACHE_MAX_SIZE
        \<and> \<not> map_has (run U [] (map request reqs)) (requestKey (hd reqs)))"
proof (intro conjI impI)
  show "map_size (run U [] calls) \<le> CACHE_MAX_SIZE"
    by (rule run_size) (simp add: map_size_def)
next
  assume "map_size c \<le> CACHE_MAX_SIZE"
  then show "map_size (snd (isAbsoluteUrl U url opts c)) \<le> CACHE_MAX_SIZE" by (rule size_step)
next
  assume a: "map_size (run U [] calls) = CACHE_MAX_SIZE
    \<and> resolveHttpOnly opts = Inr v \<and> cacheKey s v = Inr key
    \<and> \<not> map_has (run U [] calls) key"
  then have n: "map_get (run U [] calls) key = None"
    by (simp add: map_has_def map_get_def)
  from a have f: "map_size (run U [] calls) = CACHE_MAX_SIZE"
    and r: "resolveHttpOnly opts = Inr v" and k: "cacheKey s v = Inr key" by simp_all
  from full_miss [OF cache_wf_run [OF cache_wf_empty] f r k n, of U]
  show "\<exists>b. isAbsoluteUrl U (JSString s) opts (run U [] calls) =
           (Inr b, tl (run U [] calls) @ [(key, b)])"
    by blast
next
  assume "distinct reqs \<and> CACHE_MAX_SIZE < length reqs"
  then show "map_size (run U [] (map request reqs)) = CACHE_MAX_SIZE"
    by (intro run_size_distinct) simp_all
next
  assume "distinct reqs \<and> CACHE_MAX_SIZE < length reqs"
  then have "map_get (run U [] (map request reqs)) (requestKey (hd reqs)) = None"
    by (intro oldest_evicted) simp_all
  then show "\<not> map_has (run U [] (map request reqs)) (requestKey (hd reqs))"
    by (simp add: map_has_def map_get_def)
qed

theorem C5_cache_bound_witness:
  "distinct manyRequests \<and> CACHE_MAX_SIZE < length manyRequests
   \<and> map_size (run sampleUnicode [] (map request manyRequests)) = CACHE_MAX_SIZE
   \<and> resolveHttpOnly (OptionsObject (JSBoolean True)) = Inr (JSBoolean True)
   \<and> cacheKey [] (JSBoolean True) = Inr (booleanKey [] True)
   \<and> \<not> map_has (run sampleUnicode [] (map request manyRequests)) (booleanKey [] True)
   \<and> (\<exists>b. isAbsoluteUrl sampleUnicode (JSString []) (OptionsObject (JSBoolean True))
              (run sampleUnicode [] (map request manyRequests)) =
           (Inr b, tl (run sampleUnicode [] (map request manyRequests)) @ [(booleanKey [] True, b)]))
   \<and> map_size ([] :: cache) \<le> CACHE_MAX_SIZE
   \<and> map_size (snd (isAbsoluteUrl sampleUnicode (JSString (js ''a'')) OptionsNull []))
       \<le> CACHE_MAX_SIZE"
proof -
  have l: "CACHE_MAX_SIZE < length manyRequests"
    by (simp add: manyRequests_length CACHE_MAX_SIZE_def)
  have k: "requestKey (hd manyRequests) = booleanKey [] True"
    by (simp add: manyRequests_hd requestKey_def)
  have e: "map_size ([] :: cache) \<le> CACHE_MAX_SIZE" by (simp add: map_size_def)
  note r = resolve_boolean [of True]
  note ck = cacheKey_boolean [of "[]" True]
  note inst = C5_cache_bound [where U = sampleUnicode and calls = "map request manyRequests"
      and c = "[]" and url = "JSString (js ''a'')" and opts = "OptionsObject (JSBoolean True)"
      and s = "[]" and reqs = manyRequests and v = "JSBoolean True" and key = "booleanKey [] True"]
  note inst' = C5_cache_bound [where U = sampleUnicode and calls = "[]"
      and c = "[]" and url = "JSString (js ''a'')" and opts = OptionsNull
      and s = "[]" and reqs = manyRequests and v = "JSBoolean True" and key = "booleanKey [] True"]
  from inst have 4: "map_size (run sampleUnicode [] (map request manyRequests)) = CACHE_MAX_SIZE"
    "\<not> map_has (run sampleUnicode [] (map request manyRequests)) (booleanKey [] True)"
    using manyRequests_distinct l k by simp_all
  with inst r ck
  have 3: "\<exists>b. isAbsoluteUrl sampleUnicode (JSString []) (OptionsObject (JSBoolean True))
              (run sampleUnicode [] (map request manyRequests)) =
           (Inr b, tl (run sampleUnicode [] (map request manyRequests)) @ [(booleanKey [] True, b)])"
    by blast
  from inst' e
  have 2: "map_size (snd (isAbsoluteUrl sampleUnicode (JSString (js ''a'')) OptionsNull []))
      \<le> CACHE_MAX_SIZE" by blast
  from manyRequests_distinct l 4 r ck 3 e 2 show ?thesis by blast
qed

text \<open>
  C6, as stated: for every string argument the call returns a boolean and never raises.
  The call \<^verbatim>\<open>isAbsoluteUrl('http://x', null)\<close> has a string as its first argument and
  throws a TypeError: the default \<^verbatim>\<open>{}\<close> stands in for an omitted argument only, and
  \<^verbatim>\<open>httpOnly\<close> cannot be read from \<^verbatim>\<open>null\<close>.
\<close>

theorem C6_counterexample:
  "typeof (JSString (js ''http://x'')) = js ''string''
   \<and> fst (isAbsoluteUrl sampleUnicode (JSString (js ''http://x'')) OptionsNull [])
       = Inl EngineTypeError"
  by (simp add: isAbsoluteUrl_throws(1) resolveHttpOnly_def)

text \<open>
  C6, amended: the call throws the TypeError of the source, whose message holds the
  \<^verbatim>\<open>typeof\<close> of the first argument, exactly when the first argument is not a string. On
  a string it returns a boolean exactly when the options argument is not \<^verbatim>\<open>null\<close> and
  the value of \<^verbatim>\<open>httpOnly\<close> can be converted to a string (it is not a Symbol, and not an
  object whose conversion throws); so it does with the options of the contract (omitted,
  or with \<^verbatim>\<open>httpOnly\<close> absent or a boolean), for every string and every Map.
\<close>

theorem C6_type_error_iff_not_string:
  "((\<exists>msg. fst (isAbsoluteUrl U url opts c) = Inl (TypeError msg)) \<longleftrightarrow> typeof url \<noteq> js ''string'')
   \<and> (typeof url \<noteq> js ''string'' \<longrightarrow>
        fst (isAbsoluteUrl U url opts c) =
          Inl (TypeError (js ''Expected a `string`, got `'' @ typeof url @ js ''`'')))
   \<and> ((typeof url = js ''string'') = (\<exists>s. url = JSString s))
   \<and> ((\<exists>b. fst (isAbsoluteUrl U (JSString s) opts c) = Inr b)
        \<longleftrightarrow> (\<exists>v t. resolveHttpOnly opts = Inr v \<and> ToString v = Inr t))
   \<and> (contractOptions opts \<longrightarrow> (\<exists>b. fst (isAbsoluteUrl U (JSString s) opts c) = Inr b))"
proof -
  have "\<not> (\<exists>msg. fst (isAbsoluteUrl U url opts c) = Inl (TypeError msg))"
    if "typeof url = js ''string''"
  proof -
    from that obtain s where "url = JSString s" by (auto simp: typeof_string)
    then show ?thesis by (simp add: string_error)
  qed
  moreover have "fst (isAbsoluteUrl U url opts c) =
      Inl (TypeError (js ''Expected a `string`, got `'' @ typeof url @ js ''`''))"
    if "typeof url \<noteq> js ''string''"
    using that by (simp add: isAbsoluteUrl_not_string)
  moreover have "\<exists>b. fst (isAbsoluteUrl U (JSString s) opts c) = Inr b" if "contractOptions opts"
  proof -
    from that obtain h where "resolveHttpOnly opts = Inr (JSBoolean h)"
      by (auto simp: contractOptions_iff)
    then have "\<exists>v t. resolveHttpOnly opts = Inr v \<and> ToString v = Inr t" by simp
    then show ?thesis by (simp only: string_result)
  qed
  ultimately show ?thesis using string_result [of U s opts c] typeof_string [of url] by blast
qed

theorem C6_type_error_iff_not_string_witness:
  "typeof (JSNumber True (js ''1'')) \<noteq> js ''string''
   \<and> fst (isAbsoluteUrl sampleUnicode (JSNumber True (js ''1'')) OptionsUndefined []) =
       Inl (TypeError (js ''Expected a `string`, got `number`''))
   \<and> typeof JSNull \<noteq> js ''string''
   \<and> fst (isAbsoluteUrl sampleUnicode JSNull OptionsUndefined []) =
       Inl (TypeError (js ''Expected a `string`, got `object`''))
   \<and> typeof (JSString []) = js ''string''
   \<and> contractOptions OptionsUndefined
   \<and> (\<exists>b. fst (isAbsoluteUrl sampleUnicode (JSString []) OptionsUndefined []) = Inr b)
   \<and> \<not> (\<exists>b. fst (isAbsoluteUrl sampleUnicode (JSString []) (OptionsObject JSSymbol) []) = Inr b)"
proof -
  have n: "typeof (JSNumber True (js ''1'')) \<noteq> js ''string''" "typeof JSNull \<noteq> js ''string''"
    by (simp_all add: js_def)
  have m: "js ''Expected a `string`, got `'' @ typeof (JSNumber True (js ''1'')) @ js ''`''
      = js ''Expected a `string`, got `number`''"
    "js ''Expected a `string`, got `'' @ typeof JSNull @ js ''`''
      = js ''Expected a `string`, got `object`''"
    by (simp_all add: js_def)
  have s: "\<not> (\<exists>v t. resolveHttpOnly (OptionsObject JSSymbol) = Inr v \<and> ToString v = Inr t)"
    by (simp add: resolveHttpOnly_def)
  have o: "contractOptions OptionsUndefined" by simp
  show ?thesis
    using C6_type_error_iff_not_string [of sampleUnicode "JSNumber True (js ''1'')" OptionsUndefined "[]" "[]"]
      C6_type_error_iff_not_string [of sampleUnicode JSNull OptionsUndefined "[]" "[]"]
      C6_type_error_iff_not_string [of sampleUnicode JSNull "OptionsObject JSSymbol" "[]" "[]"]
      n m s o
    by simp
qed

text \<open>
  C7: the fast path does not change the result. When no code point from 128 on has a
  lowercase mapping that is empty or begins with \<^verbatim>\<open>h\<close>, \<^verbatim>\<open>t\<close>, \<^verbatim>\<open>p\<close>, \<^verbatim>\<open>s\<close> or
  \<^verbatim>\<open>:\<close> (as in Unicode), the call returns, for every string and policy and after any
  calls made with the options of the contract, what the source returns with the fast path
  left out; and that is, with every table, the reference route of the specification: the
  platform-path exclusion, the scheme-prefix test, then the scheme restriction. With every
  table, a string that is not a platform path and begins with \<^verbatim>\<open>http:\<close> or
  \<^verbatim>\<open>https:\<close> in any casing returns true under the HttpOnly policy.
\<close>

theorem C7_fast_path_equivalent:
  "(lowercaseAvoidsHttp U \<and> contractCalls calls \<and> resolveHttpOnly opts = Inr (JSBoolean h) \<longrightarrow>
      fst (isAbsoluteUrl U (JSString s) opts (run U [] calls))
        = Inr (isAbsoluteUrl_noFastPath U s h))
   \<and> isAbsoluteUrl_noFastPath U s h = isAbsoluteUrl_reference s h
   \<and> (\<not> isPlatformPath s
        \<and> (startsWithIgnoreCase (js ''http:'') s \<or> startsWithIgnoreCase (js ''https:'') s)
        \<and> contractCalls calls \<and> resolveHttpOnly opts = Inr (JSBoolean True) \<longrightarrow>
      fst (isAbsoluteUrl U (JSString s) opts (run U [] calls)) = Inr True)"
  using noFastPath_reference [of U s h]
  by (simp add: run_result classify_noFastPath classify_http_prefix)

theorem C7_fast_path_equivalent_witness:
  "lowercaseAvoidsHttp sampleUnicode
   \<and> contractCalls (map request [(js ''ftp://example.com'', False)])
   \<and> resolveHttpOnly OptionsUndefined = Inr (JSBoolean True)
   \<and> \<not> isPlatformPath (js ''hTtP://example.com'')
   \<and> startsWithIgnoreCase (js ''http:'') (js ''hTtP://example.com'')
   \<and> \<not> hasCommonHttpProtocol sampleUnicode (js ''hTtP://example.com'')
   \<and> isAbsoluteUrl_noFastPath sampleUnicode (js ''hTtP://example.com'') True
   \<and> isAbsoluteUrl_reference (js ''hTtP://example.com'') True
   \<and> fst (isAbsoluteUrl sampleUnicode (JSString (js ''hTtP://example.com'')) OptionsUndefined
          (run sampleUnicode [] (map request [(js ''ftp://example.com'', False)]))) = Inr True"
proof -
  note r = resolve_omitted
  note c = one_request_contract [of "(js ''ftp://example.com'', False)"]
  note inst = C7_fast_path_equivalent [of sampleUnicode
      "map request [(js ''ftp://example.com'', False)]" OptionsUndefined True
      "js ''hTtP://example.com''"]
  from inst have 1: "fst (isAbsoluteUrl sampleUnicode (JSString (js ''hTtP://example.com''))
          OptionsUndefined (run sampleUnicode [] (map request [(js ''ftp://example.com'', False)])))
        = Inr True"
    using mixed_http_prefix mixed_http_not_platform r c by blast
  from inst sampleUnicode_lowercase c r
  have "fst (isAbsoluteUrl sampleUnicode (JSString (js ''hTtP://example.com'')) OptionsUndefined
          (run sampleUnicode [] (map request [(js ''ftp://example.com'', False)])))
        = Inr (isAbsoluteUrl_noFastPath sampleUnicode (js ''hTtP://example.com'') True)"
    by blast
  with 1 have 2: "isAbsoluteUrl_noFastPath sampleUnicode (js ''hTtP://example.com'') True"
    by simp
  with inst have 3: "isAbsoluteUrl_reference (js ''hTtP://example.com'') True"
    by blast
  from sampleUnicode_lowercase c r mixed_http_not_platform mixed_http_prefix
    mixed_http_no_fast_path [of sampleUnicode] 2 3 1
  show ?thesis by blast
qed

text \<open>
  C8: the string \<^verbatim>\<open>c:/windows\<close> is not excluded by the platform-path rule;
  \<^verbatim>\<open>isAbsoluteUrl('c:/windows', {httpOnly: false})\<close> returns true and
  \<^verbatim>\<open>isAbsoluteUrl('c:/windows', {httpOnly: true})\<close> returns false, on the empty Map and
  after any calls made with the options of the contract.
\<close>

theorem C8_forward_slash_drive:
  "\<not> isWindowsPath (js ''c:/windows'')
   \<and> fst (isAbsoluteUrl U (JSString (js ''c:/windows'')) (OptionsObject (JSBoolean False)) [])
       = Inr True
   \<and> fst (isAbsoluteUrl U (JSString (js ''c:/windows'')) (OptionsObject (JSBoolean True)) [])
       = Inr False
   \<and> (contractCalls calls \<longrightarrow>
        fst (isAbsoluteUrl U (JSString (js ''c:/windows'')) (OptionsObject (JSBoolean False))
             (run U [] calls)) = Inr True
        \<and> fst (isAbsoluteUrl U (JSString (js ''c:/windows'')) (OptionsObject (JSBoolean True))
             (run U [] calls)) = Inr False)"
proof -
  have "fst (isAbsoluteUrl U (JSString (js ''c:/windows'')) (OptionsObject (JSBoolean h)) [])
      = Inr (classify U (js ''c:/windows'') h)" for h
    using empty_result [OF resolve_boolean cacheKey_boolean, of U "js ''c:/windows''" h] by simp
  then show ?thesis
    using c_windows_not_platform c_windows_classify [of U]
    by (simp add: run_result isWindowsPath_iff)
qed

theorem C8_forward_slash_drive_witness:
  "contractCalls [(JSString (js ''c:/windows''), OptionsUndefined)]
   \<and> fst (isAbsoluteUrl sampleUnicode (JSString (js ''c:/windows''))
          (OptionsObject (JSBoolean False))
          (run sampleUnicode [] [(JSString (js ''c:/windows''), OptionsUndefined)])) = Inr True
   \<and> fst (isAbsoluteUrl sampleUnicode (JSString (js ''c:/windows''))
          (OptionsObject (JSBoolean True))
          (run sampleUnicode [] [(JSString (js ''c:/windows''), OptionsUndefined)])) = Inr False"
proof -
  have c: "contractCalls [(JSString (js ''c:/windows''), OptionsUndefined)]"
    by (simp add: contractCalls_def)
  from C8_forward_slash_drive [of sampleUnicode "[(JSString (js ''c:/windows''), OptionsUndefined)]"] c
  show ?thesis by (simp only:)
qed

text \<open>
  C9: a hit changes nothing. When the key of the call is in the Map, the call returns the
  stored boolean and the Map it leaves is the Map it found: the same entries in the same
  order, so the entry the next eviction removes is the same.
\<close>

theorem C9_hit_no_mutation:
  assumes "resolveHttpOnly opts = Inr v" "cacheKey s v = Inr key" "map_has c key"
  shows "\<exists>stored. map_get c key = Some stored
    \<and> isAbsoluteUrl U (JSString s) opts c = (Inr stored, c)
    \<and> evictOldestCacheEntry (snd (isAbsoluteUrl U (JSString s) opts c)) = evictOldestCacheEntry c"
proof -
  from assms(3) obtain stored where "map_get c key = Some stored"
    by (auto simp: map_has_get)
  then show ?thesis by (simp add: isAbsoluteUrl_string [OF assms(1,2)])
qed

theorem C9_hit_no_mutation_witness:
  "resolveHttpOnly (OptionsObject (JSBoolean False)) = Inr (JSBoolean False)
   \<and> cacheKey (js ''a:'') (JSBoolean False) = Inr (booleanKey (js ''a:'') False)
   \<and> map_has (run sampleUnicode [] (map request [(js ''a:'', False), (js ''b'', True)]))
       (booleanKey (js ''a:'') False)
   \<and> map_firstKey (run sampleUnicode [] (map request [(js ''a:'', False), (js ''b'', True)]))
       = Some (booleanKey (js ''a:'') False)
   \<and> isAbsoluteUrl sampleUnicode (JSString (js ''a:'')) (OptionsObject (JSBoolean False))
        (run sampleUnicode [] (map request [(js ''a:'', False), (js ''b'', True)]))
      = (Inr True, run sampleUnicode [] (map request [(js ''a:'', False), (js ''b'', True)]))"
proof -
  let ?c = "run sampleUnicode [] (map request [(js ''a:'', False), (js ''b'', True)])"
  let ?opts = "OptionsObject (JSBoolean False)"
  note r = resolve_boolean [of False]
  note k = cacheKey_boolean [of "js ''a:''" False]
  have keys: "map fst ?c = [booleanKey (js ''a:'') False, booleanKey (js ''b'') True]"
    by (rule two_calls_keys)
  then have "booleanKey (js ''a:'') False \<in> fst ` set ?c"
    by (metis list.set_intros(1) set_map)
  then have h: "map_has ?c (booleanKey (js ''a:'') False)"
    by (simp add: map_has_def map_of_eq_None_iff)
  have f: "map_firstKey ?c = Some (booleanKey (js ''a:'') False)"
    using keys by (cases ?c) (simp_all add: map_firstKey_def)
  have "fst (isAbsoluteUrl sampleUnicode (JSString (js ''a:'')) ?opts ?c)
      = Inr (classify sampleUnicode (js ''a:'') False)"
    by (rule run_result [OF contractCalls_requests r])
  then have "fst (isAbsoluteUrl sampleUnicode (JSString (js ''a:'')) ?opts ?c) = Inr True"
    using a_colon_anyScheme [of sampleUnicode] by (simp only:) 
  with C9_hit_no_mutation [OF r k h, of sampleUnicode] r k h f show ?thesis by auto
qed

text \<open>
  C10: a call that throws leaves the Map as it found it: when the argument is not a string
  the call throws a TypeError and the Map is unchanged, whatever it holds.
\<close>

theorem C10_error_preserves_cache:
  assumes "typeof url \<noteq> js ''string''"
  shows "snd (isAbsoluteUrl U url opts c) = c
    \<and> (\<exists>msg. fst (isAbsoluteUrl U url opts c) = Inl (TypeError msg))"
  using assms by (simp add: isAbsoluteUrl_not_string)

theorem C10_error_preserves_cache_witness:
  "typeof JSUndefined \<noteq> js ''string''
   \<and> snd (isAbsoluteUrl sampleUnicode JSUndefined OptionsNull [(booleanKey (js ''b'') True, False)])
       = [(booleanKey (js ''b'') True, False)]
   \<and> (\<exists>msg. fst (isAbsoluteUrl sampleUnicode JSUndefined OptionsNull
               [(booleanKey (js ''b'') True, False)]) = Inl (TypeError msg))"
proof -
  have n: "typeof JSUndefined \<noteq> js ''string''" by (simp add: js_def)
  from C10_error_preserves_cache [OF n, of sampleUnicode OptionsNull
      "[(booleanKey (js ''b'') True, False)]"] n
  show ?thesis by blast
qed

end
